theory Spec2Isabelle
  imports Main
begin

section \<open>The link store of golinks (store.go)\<close>

text \<open>
  The store keeps a map from names to links in memory (\<open>cache\<close>), the list of written
  names (\<open>order\<close>) and an append-only log file. Strings are Go byte strings, modelled as
  \<open>string\<close>. The open file handle is modelled by the bytes of the file it appends to
  (the field \<open>file\<close>, written \<open>file'\<close> here); the reader/writer lock is left out, every
  operation runs alone. The append of \<open>Set\<close> has an explicit outcome. The other calls of
  the operating system (\<open>os.OpenFile\<close> with \<open>O_CREATE\<close>, reading the file, \<open>Close\<close>, the
  writes of \<open>Dump\<close>) are taken to succeed, so the returns of \<open>Open\<close>, \<open>Close\<close> and
  \<open>Dump\<close> that only pass such an error on have no branch here. The case tables of Go's
  \<open>unicode\<close> package, which \<open>fuzz\<close> reaches through \<open>strings.ToLower\<close>, are a parameter
  of the model.
\<close>

subsection \<open>Data\<close>

datatype error =
    InvalidLine string string  \<comment> \<open>\<open>fmt.Errorf("invalid line in %s: %s", filename, text)\<close>\<close>
  | ErrTooLong                 \<comment> \<open>\<open>bufio.ErrTooLong\<close>, from \<open>scanner.Err()\<close>\<close>
  | WriteError                 \<comment> \<open>the error of a failed \<open>WriteString\<close>\<close>

record FileStore =
  fuzzy :: bool
  order :: "string list"
  cache :: "string \<rightharpoonup> string"
  file' :: string

text \<open>The outcome of one append: complete, or failed after \<open>n\<close> bytes reached the file.\<close>

datatype io = Ok | Fail nat

subsection \<open>Library functions used by the store\<close>

text \<open>
  \<open>strings.Replace(s, old, new, -1)\<close> for a one-byte \<open>old\<close>: every occurrence is replaced.
\<close>

definition Replace :: "string \<Rightarrow> char \<Rightarrow> string \<Rightarrow> string" where
  "Replace s old new = concat (map (\<lambda>c. if c = old then new else [c]) s)"

text \<open>
  \<open>strings.ToLower\<close>. A string in which every byte is below \<open>utf8.RuneSelf\<close> (128)
  is lower-cased byte by byte: \<open>if 'A' <= c && c <= 'Z' { c += 'a' - 'A' }\<close>. Any other
  string is mapped rune by rune, \<open>Map(unicode.ToLower, s)\<close>, with the case tables of
  Go's \<open>unicode\<close> package and U+FFFD for invalid UTF-8. These tables are not part of
  the repository: the mapping is the parameter \<open>U\<close> of \<open>ToLower\<close> and of every function
  that depends on it, and what is proved holds for every \<open>U\<close>.
\<close>

definition isASCII :: "string \<Rightarrow> bool" where
  "isASCII s = list_all (\<lambda>c. (of_char c :: nat) < 128) s"

definition lower :: "char \<Rightarrow> char" where
  "lower c = (if (65::nat) \<le> of_char c \<and> of_char c \<le> (90::nat)
              then char_of (of_char c + (32::nat)) else c)"

definition ToLower :: "(string \<Rightarrow> string) \<Rightarrow> string \<Rightarrow> string" where
  "ToLower U s = (if isASCII s then map lower s else U s)"

text \<open>
  \<open>strings.Split(s, sep)\<close> for a one-byte separator: the pieces between the separators,
  \<open>n + 1\<close> pieces for \<open>n\<close> separators, so never an empty list.
\<close>

fun Split :: "string \<Rightarrow> char \<Rightarrow> string list" where
  "Split [] sep = [] # []"
| "Split (c # cs) sep =
     (if c = sep then [] # Split cs sep
      else (case Split cs sep of [] \<Rightarrow> [c] # [] | w # ws \<Rightarrow> (c # w) # ws))"

text \<open>
  \<open>bufio.Scanner\<close> with the default split function \<open>ScanLines\<close>. \<open>scan\<close> gives the
  lines of the data as the scanner cuts them, before the carriage return is dropped:
  each line ends at a newline, a last line without newline is a line when it is not empty.
\<close>

definition newline :: char where
  "newline = CHR 0x0A"

definition cr :: char where
  "cr = CHR 0x0D"

function scan :: "string \<Rightarrow> string list" where
  "scan data =
     (if data = [] then []
      else let line = takeWhile (\<lambda>c. c \<noteq> newline) data
           in line # scan (drop (Suc (length line)) data))"
  by pat_completeness auto
termination
  by (relation "measure length") auto

declare scan.simps [simp del]

definition dropCR :: "string \<Rightarrow> string" where
  "dropCR data = (if data \<noteq> [] \<and> last data = cr then butlast data else data)"

text \<open>
  \<open>bufio.MaxScanTokenSize\<close>: a line with its newline has to fit into a buffer of this
  size, so \<open>Scan\<close> stops with \<open>ErrTooLong\<close> at a line of this many bytes or more.
\<close>

definition MaxScanTokenSize :: nat where
  "MaxScanTokenSize = 64 * 1024"

subsection \<open>The store\<close>

definition fuzz :: "(string \<Rightarrow> string) \<Rightarrow> string \<Rightarrow> string" where
  "fuzz U name = ToLower U (Replace (Replace name (CHR ''-'') []) (CHR ''_'') [])"

text \<open>\<open>link, ok := m[name]\<close>: a missing key reads as the empty string and \<open>false\<close>.\<close>

definition lookup :: "(string \<rightharpoonup> string) \<Rightarrow> string \<Rightarrow> string \<times> bool" where
  "lookup m name = (case m name of None \<Rightarrow> ([], False) | Some link \<Rightarrow> (link, True))"

definition get :: "(string \<Rightarrow> string) \<Rightarrow> FileStore \<Rightarrow> string \<Rightarrow> string \<times> bool" where
  "get U s name =
     (let (link, ok) = lookup (cache s) name
      in if (\<not> ok \<or> link = []) \<and> fuzzy s then lookup (cache s) (fuzz U name)
         else (link, ok))"

definition set' :: "(string \<Rightarrow> string) \<Rightarrow> FileStore \<Rightarrow> string \<Rightarrow> string \<Rightarrow> FileStore" where
  "set' U s name link =
     (let s1 = (if link = [] then s\<lparr>cache := (cache s)(name := None)\<rparr>
                else s\<lparr>cache := (cache s)(name \<mapsto> link)\<rparr>)
      in if fuzzy s1
         then (let fuzzed = fuzz U name
               in if link = [] then s1\<lparr>cache := (cache s1)(fuzzed := None)\<rparr>
                  else s1\<lparr>cache := (cache s1)(fuzzed \<mapsto> link)\<rparr>)
         else s1)"

definition Get :: "(string \<Rightarrow> string) \<Rightarrow> FileStore \<Rightarrow> string \<Rightarrow> string \<times> bool" where
  "Get U s name =
     (let (link, ok) = get U s name
      in if \<not> ok \<or> link = [] then ([], False) else (link, True))"

text \<open>The line \<open>fmt.Sprintf("%s %s\n", name, link)\<close> that \<open>Set\<close> and \<open>Dump\<close> write.\<close>

definition record_line :: "string \<Rightarrow> string \<Rightarrow> string" where
  "record_line name link = name @ CHR '' '' # link @ [newline]"

definition WriteString :: "string \<Rightarrow> string \<Rightarrow> io \<Rightarrow> string \<times> error option" where
  "WriteString f str w =
     (case w of Ok \<Rightarrow> (f @ str, None) | Fail n \<Rightarrow> (f @ take n str, Some WriteError))"

definition Set ::
  "(string \<Rightarrow> string) \<Rightarrow> FileStore \<Rightarrow> string \<Rightarrow> string \<Rightarrow> io \<Rightarrow> FileStore \<times> error option" where
  "Set U s name link w =
     (case WriteString (file' s) (record_line name link) w of
        (f, Some err) \<Rightarrow> (s\<lparr>file' := f\<rparr>, Some err)
      | (f, None) \<Rightarrow> (set' U (s\<lparr>file' := f, order := order s @ [name]\<rparr>) name link, None))"

text \<open>
  The loop of \<open>Iterate\<close> over \<open>order\<close> from its last index down to 0: \<open>todo\<close> is the
  part of \<open>order\<close> still to visit, most recent first. The callback works on a state
  \<open>'a\<close> (what its closure captures) and may return an error.
\<close>

fun iterate_loop ::
  "(string \<Rightarrow> string) \<Rightarrow> FileStore \<Rightarrow> (string \<Rightarrow> string \<Rightarrow> 'a \<Rightarrow> 'a \<times> error option) \<Rightarrow> string list \<Rightarrow> string set
     \<Rightarrow> 'a \<Rightarrow> 'a \<times> error option" where
  "iterate_loop U s cb [] seen st = (st, None)"
| "iterate_loop U s cb (next # todo) seen st =
     (let ok = next \<in> seen; seen1 = insert next seen
      in if \<not> ok
         then (case get U s next of
                 (link, True) \<Rightarrow>
                   (case cb next link st of
                      (st1, Some err) \<Rightarrow> (st1, Some err)
                    | (st1, None) \<Rightarrow> iterate_loop U s cb todo seen1 st1)
               | (link, False) \<Rightarrow> iterate_loop U s cb todo seen1 st)
         else iterate_loop U s cb todo seen1 st)"

definition Iterate ::
  "(string \<Rightarrow> string) \<Rightarrow> FileStore \<Rightarrow> (string \<Rightarrow> string \<Rightarrow> 'a \<Rightarrow> 'a \<times> error option) \<Rightarrow> 'a
     \<Rightarrow> 'a \<times> error option" where
  "Iterate U s cb st = iterate_loop U s cb (rev (order s)) {} st"

text \<open>
  \<open>Dump\<close> collects one line per visited name and writes the lines from the last
  collected to the first; the result is the content of the file written.
\<close>

definition dump_cb :: "string \<Rightarrow> string \<Rightarrow> string list \<Rightarrow> string list \<times> error option" where
  "dump_cb name link lines = (lines @ [record_line name link], None)"

definition Dump :: "(string \<Rightarrow> string) \<Rightarrow> FileStore \<Rightarrow> string" where
  "Dump U s = (let lines = fst (Iterate U s dump_cb []) in concat (rev lines))"

text \<open>
  The replay loop of \<open>Open\<close> over the lines the scanner still has to deliver.
\<close>

fun replay ::
  "(string \<Rightarrow> string) \<Rightarrow> string \<Rightarrow> FileStore \<Rightarrow> string list \<Rightarrow> error + FileStore" where
  "replay U filename s [] = Inr s"
| "replay U filename s (raw # rest) =
     (if MaxScanTokenSize \<le> length raw then Inl ErrTooLong
      else let text = dropCR raw;
               split = Split text (CHR '' '');
               s1 = s\<lparr>order := order s @ [split ! 0]\<rparr>
           in if length split = 1 then replay U filename (set' U s1 (split ! 0) []) rest
              else if length split = 2 then replay U filename (set' U s1 (split ! 0) (split ! 1)) rest
              else Inl (InvalidLine filename text))"

text \<open>
  \<open>Open(filename, bools...)\<close>; \<open>data\<close> is the content of the file named \<open>filename\<close>
  when it is opened, empty when the file is created by the call.
\<close>

function Open ::
  "(string \<Rightarrow> string) \<Rightarrow> string \<Rightarrow> string \<Rightarrow> bool list \<Rightarrow> error + FileStore" where
  "Open U filename data bools =
     (let fuzzy = (if length bools > 0 then bools ! 0 else False);
          compact = (if length bools > 1 then bools ! 1 else False);
          s = \<lparr>fuzzy = fuzzy, order = [], cache = Map.empty, file' = data\<rparr>
      in case replay U filename s (scan data) of
           Inl err \<Rightarrow> Inl err
         | Inr s1 \<Rightarrow> if compact then Open U filename (Dump U s1) [fuzzy, False] else Inr s1)"
  by pat_completeness auto
termination
  by (relation "measure (\<lambda>(U, filename, data, bools). if length bools > 1 \<and> bools ! 1 then 1 else 0)")
     (auto split: if_splits)

declare Open.simps [simp del]

subsection \<open>Vocabulary of the properties\<close>

text \<open>
  A mapping to run the examples with. Their names are ASCII, so \<open>ToLower\<close> never
  applies it.
\<close>

definition unmapped :: "string \<Rightarrow> string" where
  "unmapped s = s"

text \<open>The store that \<open>Open\<close> returns for a new, empty file.\<close>

definition new_store :: "bool \<Rightarrow> FileStore" where
  "new_store fz = \<lparr>fuzzy = fz, order = [], cache = Map.empty, file' = []\<rparr>"

text \<open>A sequence of \<open>Set\<close> calls, each with a complete append.\<close>

fun Sets :: "(string \<Rightarrow> string) \<Rightarrow> FileStore \<Rightarrow> (string \<times> string) list \<Rightarrow> FileStore" where
  "Sets U s [] = s"
| "Sets U s ((name, link) # ws) = Sets U (fst (Set U s name link Ok)) ws"

text \<open>
  The stores a caller can hold: returned by \<open>Open\<close>, then changed by calls of \<open>Set\<close>
  whose append succeeds or fails.
\<close>

inductive reachable :: "(string \<Rightarrow> string) \<Rightarrow> FileStore \<Rightarrow> bool" for U where
  opened: "Open U filename data bools = Inr s \<Longrightarrow> reachable U s"
| written: "reachable U s \<Longrightarrow> reachable U (fst (Set U s name link w))"

text \<open>
  The callback of \<open>getIndex\<close> (golinks.go), which appends each pair it is given to a
  list, and the list \<open>Iterate\<close> leaves there.
\<close>

definition collect ::
  "string \<Rightarrow> string \<Rightarrow> (string \<times> string) list \<Rightarrow> (string \<times> string) list \<times> error option" where
  "collect name link acc = (acc @ [(name, link)], None)"

definition visited :: "(string \<Rightarrow> string) \<Rightarrow> FileStore \<Rightarrow> (string \<times> string) list" where
  "visited U s = fst (Iterate U s collect [])"

text \<open>
  The words of the specification for the index and for iteration, over the list of
  writes \<open>ws\<close> (oldest first): the link of the most recent write to a name; the index,
  where the last write wins and a tombstone means no entry; the live names with their
  links, each once, the most recently written first.
\<close>

definition last_link :: "(string \<times> string) list \<Rightarrow> string \<Rightarrow> string option" where
  "last_link ws name = map_of (rev ws) name"

definition index_spec :: "(string \<times> string) list \<Rightarrow> string \<Rightarrow> string option" where
  "index_spec ws name =
     (case last_link ws name of None \<Rightarrow> None | Some link \<Rightarrow> if link = [] then None else Some link)"

definition iterate_spec :: "(string \<times> string) list \<Rightarrow> (string \<times> string) list" where
  "iterate_spec ws =
     List.map_filter (\<lambda>name. map_option (Pair name) (index_spec ws name))
       (rev (remdups (map fst ws)))"

text \<open>
  A write that the log format can hold: no space and no newline in the name or the link,
  no carriage return at the end of a non-empty link (the scanner drops it), and a line
  below the scanner's limit. \<open>log_of\<close> is the log that a sequence of writes leaves.
\<close>

definition clean :: "string \<Rightarrow> string \<Rightarrow> bool" where
  "clean name link =
     (CHR '' '' \<notin> set name \<and> newline \<notin> set name \<and>
      CHR '' '' \<notin> set link \<and> newline \<notin> set link \<and>
      (link = [] \<or> last link \<noteq> cr) \<and>
      length name + length link + 1 < MaxScanTokenSize)"

definition log_of :: "(string \<times> string) list \<Rightarrow> string" where
  "log_of ws = concat (map (\<lambda>(name, link). record_line name link) ws)"

text \<open>
  The most recent write, tombstones included, among the names whose normal form is \<open>n\<close>.
\<close>

definition last_write_of_form ::
  "(string \<Rightarrow> string) \<Rightarrow> (string \<times> string) list \<Rightarrow> string \<Rightarrow> (string \<times> string) option" where
  "last_write_of_form U ws n = find (\<lambda>(name, link). fuzz U name = n) (rev ws)"

text \<open>
  A name is \<open>stable\<close> when normalising its normal form changes nothing. Every ASCII name
  is; for the other names this is a property of the tables behind \<open>U\<close> (lower-casing a
  lower-cased rune gives the same rune).
\<close>

definition stable :: "(string \<Rightarrow> string) \<Rightarrow> string \<Rightarrow> bool" where
  "stable U name = (fuzz U (fuzz U name) = fuzz U name)"

text \<open>
  What makes every name stable: on a string with a byte from 128 on and without \<open>-\<close> and
  \<open>_\<close>, the mapping returns a string without \<open>-\<close>, \<open>_\<close> and upper-case ASCII letters,
  and maps its own result to itself.
\<close>

definition lower_casing :: "(string \<Rightarrow> string) \<Rightarrow> bool" where
  "lower_casing U =
     (\<forall>s. \<not> isASCII s \<and> CHR ''-'' \<notin> set s \<and> CHR ''_'' \<notin> set s \<longrightarrow>
          CHR ''-'' \<notin> set (U s) \<and> CHR ''_'' \<notin> set (U s) \<and> map lower (U s) = U s \<and>
          (\<not> isASCII (U s) \<longrightarrow> U (U s) = U s))"

text \<open>
  The names \<open>ks\<close> keep their normal forms apart: the normal form of a name is neither
  another name of \<open>ks\<close> nor the normal form of one.
\<close>

definition forms_apart :: "(string \<Rightarrow> string) \<Rightarrow> string list \<Rightarrow> bool" where
  "forms_apart U ks =
     (\<forall>k \<in> set ks. \<forall>k' \<in> set ks. k \<noteq> k' \<longrightarrow> fuzz U k \<noteq> fuzz U k' \<and> fuzz U k \<noteq> k')"

text \<open>
  Every written name that has an entry of its own in the index has an entry for its
  normal form too.
\<close>

definition live_forms :: "(string \<Rightarrow> string) \<Rightarrow> FileStore \<Rightarrow> bool" where
  "live_forms U s = (\<forall>k \<in> set (order s). cache s k \<noteq> None \<longrightarrow> cache s (fuzz U k) \<noteq> None)"

definition no_empty_link :: "FileStore \<Rightarrow> bool" where
  "no_empty_link s = (\<forall>name. cache s name \<noteq> Some [])"

section \<open>Properties\<close>

subsection \<open>Basic facts about the operations\<close>

lemma new_store_fields [simp]:
  "fuzzy (new_store fz) = fz" "order (new_store fz) = []"
  "cache (new_store fz) = Map.empty" "file' (new_store fz) = []"
  by (simp_all add: new_store_def)

lemma Open_empty: "Open U filename [] [fz] = Inr (new_store fz)"
  by (simp add: Open.simps scan.simps new_store_def)

lemma Set_Ok: "Set U s name link Ok =
  (set' U (s\<lparr>file' := file' s @ record_line name link, order := order s @ [name]\<rparr>) name link, None)"
  by (simp add: Set_def WriteString_def)

lemma Set_Fail: "Set U s name link (Fail n) =
  (s\<lparr>file' := file' s @ take n (record_line name link)\<rparr>, Some WriteError)"
  by (simp add: Set_def WriteString_def)

lemma cache_set': "cache (set' U s name link) =
  (if fuzzy s then (cache s)(name := if link = [] then None else Some link,
                           fuzz U name := if link = [] then None else Some link)
   else (cache s)(name := if link = [] then None else Some link))"
  by (simp add: set'_def Let_def)

lemma set'_fields [simp]:
  "fuzzy (set' U s name link) = fuzzy s"
  "order (set' U s name link) = order s"
  "file' (set' U s name link) = file' s"
  by (simp_all add: set'_def Let_def)

lemma get_file' [simp]: "get U (s\<lparr>file' := f\<rparr>) name = get U s name"
  by (simp add: get_def split: prod.splits)

lemma Get_file' [simp]: "Get U (s\<lparr>file' := f\<rparr>) name = Get U s name"
  by (simp add: Get_def)

lemma iterate_loop_file' [simp]:
  "iterate_loop U (s\<lparr>file' := f\<rparr>) cb todo seen st = iterate_loop U s cb todo seen st"
  by (induction todo arbitrary: seen st) (simp_all add: Let_def split: prod.splits option.splits)

lemma Iterate_file' [simp]: "Iterate U (s\<lparr>file' := f\<rparr>) cb st = Iterate U s cb st"
  by (simp add: Iterate_def)

lemma set'_file': "set' U (s\<lparr>file' := f\<rparr>) name link = (set' U s name link)\<lparr>file' := f\<rparr>"
  by (simp add: set'_def Let_def)

lemma replay_Cons_Inr:
  "replay U filename s (raw # rest) = Inr s1 \<Longrightarrow>
   \<exists>name link. replay U filename (set' U (s\<lparr>order := order s @ [name]\<rparr>) name link) rest = Inr s1"
  by (auto simp: Let_def split: if_splits)

subsection \<open>Set, then Get\<close>

text \<open>
  Claim C1. After a successful \<open>Set(name, link)\<close> with a non-empty link on any store,
  fuzzy or not, \<open>Get(name)\<close> returns \<open>(link, true)\<close>.
\<close>

theorem Set_then_Get:
  "link \<noteq> [] \<Longrightarrow>
     snd (Set U s name link Ok) = None \<and> Get U (fst (Set U s name link Ok)) name = (link, True)"
  by (simp add: Set_Ok Get_def get_def lookup_def cache_set')

theorem Set_then_Get_witness:
  "''https://go.dev'' \<noteq> [] \<and> snd (Set unmapped (new_store True) ''Go'' ''https://go.dev'' Ok) = None \<and>
   Get unmapped (fst (Set unmapped (new_store True) ''Go'' ''https://go.dev'' Ok)) ''Go'' = (''https://go.dev'', True)"
  using Set_then_Get [where link = "''https://go.dev''" and U = unmapped and s = "new_store True"
      and name = "''Go''"] by simp

text \<open>
  Claim C8. After a successful \<open>Set(name, "")\<close>, \<open>Get(name)\<close> returns \<open>("", false)\<close> and
  \<open>name\<close> has no entry in the index.
\<close>

theorem tombstone_then_Get:
  "snd (Set U s name [] Ok) = None \<and> Get U (fst (Set U s name [] Ok)) name = ([], False) \<and>
   cache (fst (Set U s name [] Ok)) name = None"
  by (simp add: Set_Ok Get_def get_def lookup_def cache_set')

theorem tombstone_then_Get_witness:
  "snd (Set unmapped (new_store True) ''Go-Links'' [] Ok) = None \<and>
   Get unmapped (fst (Set unmapped (new_store True) ''Go-Links'' [] Ok)) ''Go-Links'' = ([], False) \<and>
   cache (fst (Set unmapped (new_store True) ''Go-Links'' [] Ok)) ''Go-Links'' = None"
  by (rule tombstone_then_Get [of unmapped "new_store True" "''Go-Links''"])

subsection \<open>A failed append\<close>

text \<open>
  Claim C4. When the append inside \<open>Set\<close> fails, \<open>Set\<close> returns the error, \<open>cache\<close>
  and \<open>order\<close> are as before the call, and the store stays usable: \<open>Get\<close> and
  \<open>Iterate\<close> answer as before, and a later successful \<open>Set\<close> gives the index and the
  order it would have given without the failed call.
\<close>

theorem Set_failed_keeps_memory:
  "snd (Set U s name link (Fail n)) = Some WriteError \<and>
   cache (fst (Set U s name link (Fail n))) = cache s \<and>
   order (fst (Set U s name link (Fail n))) = order s \<and>
   fuzzy (fst (Set U s name link (Fail n))) = fuzzy s \<and>
   Get U (fst (Set U s name link (Fail n))) k = Get U s k \<and>
   Iterate U (fst (Set U s name link (Fail n))) cb st = Iterate U s cb st \<and>
   cache (fst (Set U (fst (Set U s name link (Fail n))) name2 link2 Ok)) =
     cache (fst (Set U s name2 link2 Ok)) \<and>
   order (fst (Set U (fst (Set U s name link (Fail n))) name2 link2 Ok)) =
     order (fst (Set U s name2 link2 Ok))"
  by (simp add: Set_Fail Set_Ok cache_set')

theorem Set_failed_keeps_memory_witness:
  "snd (Set unmapped (new_store True) ''Go'' ''x'' (Fail 2)) = Some WriteError \<and>
   cache (fst (Set unmapped (new_store True) ''Go'' ''x'' (Fail 2))) = cache (new_store True) \<and>
   order (fst (Set unmapped (new_store True) ''Go'' ''x'' (Fail 2))) = order (new_store True) \<and>
   fuzzy (fst (Set unmapped (new_store True) ''Go'' ''x'' (Fail 2))) = fuzzy (new_store True) \<and>
   Get unmapped (fst (Set unmapped (new_store True) ''Go'' ''x'' (Fail 2))) ''Go'' = Get unmapped (new_store True) ''Go'' \<and>
   Iterate unmapped (fst (Set unmapped (new_store True) ''Go'' ''x'' (Fail 2))) collect [] =
     Iterate unmapped (new_store True) collect [] \<and>
   cache (fst (Set unmapped (fst (Set unmapped (new_store True) ''Go'' ''x'' (Fail 2))) ''b'' ''y'' Ok)) =
     cache (fst (Set unmapped (new_store True) ''b'' ''y'' Ok)) \<and>
   order (fst (Set unmapped (fst (Set unmapped (new_store True) ''Go'' ''x'' (Fail 2))) ''b'' ''y'' Ok)) =
     order (fst (Set unmapped (new_store True) ''b'' ''y'' Ok))"
  by (rule Set_failed_keeps_memory
      [of unmapped "new_store True" "''Go''" "''x''" 2 "''Go''" collect "[]" "''b''" "''y''"])

subsection \<open>The index holds no empty link\<close>

lemma no_empty_set': "no_empty_link s \<Longrightarrow> no_empty_link (set' U s name link)"
  by (simp add: no_empty_link_def cache_set')

lemma no_empty_order [simp]: "no_empty_link (s\<lparr>order := xs\<rparr>) = no_empty_link s"
  by (simp add: no_empty_link_def)

lemma no_empty_file' [simp]: "no_empty_link (s\<lparr>file' := xs\<rparr>) = no_empty_link s"
  by (simp add: no_empty_link_def)

lemma no_empty_replay:
  "no_empty_link s \<Longrightarrow> replay U filename s raws = Inr s1 \<Longrightarrow> no_empty_link s1"
proof (induction raws arbitrary: s)
  case Nil
  then show ?case by simp
next
  case (Cons raw rest)
  from Cons.prems(2) obtain name link
    where "replay U filename (set' U (s\<lparr>order := order s @ [name]\<rparr>) name link) rest = Inr s1"
    by (blast dest: replay_Cons_Inr)
  moreover have "no_empty_link (set' U (s\<lparr>order := order s @ [name]\<rparr>) name link)"
    using Cons.prems(1) by (simp add: no_empty_set')
  ultimately show ?case by (rule Cons.IH [rotated])
qed

lemma no_empty_Open: "Open U filename data bools = Inr s \<Longrightarrow> no_empty_link s"
proof (induction U filename data bools arbitrary: s rule: Open.induct)
  case (1 U filename data bools)
  let ?fz = "if length bools > 0 then bools ! 0 else False"
  let ?s0 = "\<lparr>fuzzy = ?fz, order = [], cache = Map.empty, file' = data\<rparr>"
  have s0: "no_empty_link ?s0" by (simp add: no_empty_link_def)
  from "1.prems" obtain s1 where r: "replay U filename ?s0 (scan data) = Inr s1"
    by (subst (asm) Open.simps) (auto simp: Let_def split: sum.splits)
  have s1: "no_empty_link s1" using no_empty_replay [OF s0 r] .
  show ?case
  proof (cases "length bools > 1 \<and> bools ! 1")
    case True
    with "1.prems" r have "Open U filename (Dump U s1) [?fz, False] = Inr s"
      by (subst (asm) Open.simps) (auto simp: Let_def split: if_splits)
    with "1.IH" [OF refl refl refl r] True show ?thesis by auto
  next
    case False
    with "1.prems" r have "s = s1"
      by (subst (asm) Open.simps) (auto simp: Let_def split: if_splits)
    with s1 show ?thesis by simp
  qed
qed

lemma no_empty_Set: "no_empty_link s \<Longrightarrow> no_empty_link (fst (Set U s name link w))"
  by (cases w) (simp_all add: Set_Ok Set_Fail no_empty_set')

lemma reachable_no_empty: "reachable U s \<Longrightarrow> no_empty_link s"
  by (induction rule: reachable.induct) (simp_all add: no_empty_Open no_empty_Set)

text \<open>
  Claim C9. \<open>Get\<close> never returns \<open>true\<close> together with an empty link, on any store; and
  in every reachable store the index stores no empty link.
\<close>

theorem Get_found_link_not_empty:
  "Get U s name \<noteq> ([], True) \<and> (reachable U s \<longrightarrow> cache s name \<noteq> Some [])"
  using reachable_no_empty [of U s]
  by (auto simp: Get_def Let_def no_empty_link_def split: prod.splits)

theorem Get_found_link_not_empty_witness:
  "reachable unmapped (fst (Set unmapped (new_store True) ''Go'' [] Ok)) \<and>
   Get unmapped (fst (Set unmapped (new_store True) ''Go'' [] Ok)) ''Go'' \<noteq> ([], True) \<and>
   cache (fst (Set unmapped (new_store True) ''Go'' [] Ok)) ''Go'' \<noteq> Some []"
proof -
  have "reachable unmapped (new_store True)"
    using opened [OF Open_empty [of unmapped "''links''" True]] .
  then have r: "reachable unmapped (fst (Set unmapped (new_store True) ''Go'' [] Ok))"
    by (rule written)
  with Get_found_link_not_empty [of unmapped "fst (Set unmapped (new_store True) ''Go'' [] Ok)" "''Go''"]
  show ?thesis by blast
qed

subsection \<open>The normal form of a name\<close>

lemma Replace_delete: "Replace s c [] = filter (\<lambda>x. x \<noteq> c) s"
  by (induction s) (simp_all add: Replace_def)

lemma of_char_lower:
  "of_char (lower c) = (if (65::nat) \<le> of_char c \<and> of_char c \<le> (90::nat) then of_char c + 32 else (of_char c :: nat))"
  by (simp add: lower_def)

lemma lower_eq_iff:
  assumes "\<not> ((65::nat) \<le> of_char d \<and> of_char d \<le> (90::nat))" "\<not> ((97::nat) \<le> of_char d \<and> of_char d \<le> (122::nat))"
  shows "lower c = d \<longleftrightarrow> c = d"
proof -
  have "lower c = d \<longleftrightarrow> (of_char (lower c) :: nat) = of_char d" by simp
  also have "\<dots> \<longleftrightarrow> (of_char c :: nat) = of_char d"
    using assms by (auto simp: of_char_lower)
  also have "\<dots> \<longleftrightarrow> c = d" by simp
  finally show ?thesis .
qed

lemma lower_dash [simp]: "lower c = CHR ''-'' \<longleftrightarrow> c = CHR ''-''"
  by (rule lower_eq_iff) simp_all

lemma lower_underscore [simp]: "lower c = CHR ''_'' \<longleftrightarrow> c = CHR ''_''"
  by (rule lower_eq_iff) simp_all

lemma lower_idem [simp]: "lower (lower c) = lower c"
proof -
  have "(of_char (lower (lower c)) :: nat) = of_char (lower c)"
    by (simp add: of_char_lower)
  then show ?thesis by simp
qed

lemma isASCII_Nil [simp]: "isASCII []"
  by (simp add: isASCII_def)

lemma isASCII_Cons [simp]: "isASCII (c # s) = ((of_char c :: nat) < 128 \<and> isASCII s)"
  by (simp add: isASCII_def)

lemma isASCII_filter: "isASCII s \<Longrightarrow> isASCII (filter P s)"
  by (induction s) auto

lemma isASCII_lower: "isASCII s \<Longrightarrow> isASCII (map lower s)"
  by (induction s) (auto simp: of_char_lower)

lemma ToLower_ASCII: "isASCII s \<Longrightarrow> ToLower U s = map lower s"
  by (simp add: ToLower_def)

lemma fuzz_filter: "fuzz U name = ToLower U (filter (\<lambda>c. c \<noteq> CHR ''-'' \<and> c \<noteq> CHR ''_'') name)"
  by (simp add: fuzz_def Replace_delete)

lemma fuzz_ASCII:
  "isASCII name \<Longrightarrow> fuzz U name = filter (\<lambda>c. c \<noteq> CHR ''-'' \<and> c \<noteq> CHR ''_'') (map lower name)"
  by (simp add: fuzz_filter ToLower_ASCII isASCII_filter filter_map comp_def)

lemma fuzz_normal_form:
  "isASCII name \<Longrightarrow> fuzz U name = filter (\<lambda>c. c \<noteq> CHR ''-'' \<and> c \<noteq> CHR ''_'') (ToLower U name)"
  by (simp add: fuzz_ASCII ToLower_ASCII)

lemma stable_ASCII: "isASCII name \<Longrightarrow> stable U name"
proof -
  assume a: "isASCII name"
  let ?t = "filter (\<lambda>c. c \<noteq> CHR ''-'' \<and> c \<noteq> CHR ''_'') (map lower name)"
  from a have "isASCII ?t" by (intro isASCII_filter isASCII_lower)
  then have "fuzz U ?t = filter (\<lambda>c. c \<noteq> CHR ''-'' \<and> c \<noteq> CHR ''_'') (map lower ?t)"
    by (rule fuzz_ASCII)
  also have "\<dots> = ?t" by (induction name) simp_all
  finally show ?thesis using a by (simp add: stable_def fuzz_ASCII)
qed

lemma stable_lower_casing:
  assumes "lower_casing U"
  shows "stable U name"
proof -
  let ?t = "filter (\<lambda>c. c \<noteq> CHR ''-'' \<and> c \<noteq> CHR ''_'') name"
  show ?thesis
  proof (cases "isASCII ?t")
    case True
    let ?u = "map lower ?t"
    from True have f: "fuzz U name = ?u" by (simp add: fuzz_filter ToLower_ASCII)
    from True have "isASCII ?u" by (rule isASCII_lower)
    then have "fuzz U ?u = filter (\<lambda>c. c \<noteq> CHR ''-'' \<and> c \<noteq> CHR ''_'') (map lower ?u)"
      by (rule fuzz_ASCII)
    also have "\<dots> = ?u" by (induction name) simp_all
    finally show ?thesis by (simp add: stable_def f)
  next
    case False
    let ?u = "U ?t"
    from False have f: "fuzz U name = ?u" by (simp add: fuzz_filter ToLower_def)
    have "CHR ''-'' \<notin> set ?t" "CHR ''_'' \<notin> set ?t" by simp_all
    with assms False
    have u: "CHR ''-'' \<notin> set ?u" "CHR ''_'' \<notin> set ?u" "map lower ?u = ?u"
      "\<not> isASCII ?u \<longrightarrow> U ?u = ?u"
      unfolding lower_casing_def by blast+
    from u(1,2) have "filter (\<lambda>c. c \<noteq> CHR ''-'' \<and> c \<noteq> CHR ''_'') ?u = ?u"
      by (simp add: filter_id_conv) metis
    then have "fuzz U ?u = ToLower U ?u" by (simp add: fuzz_filter)
    also have "\<dots> = ?u" using u(3,4) by (simp add: ToLower_def)
    finally show ?thesis by (simp add: stable_def f)
  qed
qed

lemma lower_casing_map_lower: "lower_casing (map lower)"
proof -
  have "c \<notin> set (map lower s)" if "c \<notin> set s" "c = CHR ''-'' \<or> c = CHR ''_''" for c s
  proof
    assume "c \<in> set (map lower s)"
    then obtain x where x: "x \<in> set s" "c = lower x" by auto
    with that(2) have "x = c" by (metis lower_dash lower_underscore)
    with x(1) that(1) show False by simp
  qed
  then show ?thesis by (simp add: lower_casing_def)
qed

lemma stable_unmapped: "stable unmapped name"
proof (cases "isASCII name")
  case True
  then show ?thesis by (rule stable_ASCII)
next
  case False
  let ?t = "filter (\<lambda>c. c \<noteq> CHR ''-'' \<and> c \<noteq> CHR ''_'') name"
  show ?thesis
  proof (cases "isASCII ?t")
    case True
    let ?u = "map lower ?t"
    from True have f: "fuzz unmapped name = ?u" by (simp add: fuzz_filter ToLower_ASCII)
    from True have "isASCII ?u" by (rule isASCII_lower)
    then have "fuzz unmapped ?u = filter (\<lambda>c. c \<noteq> CHR ''-'' \<and> c \<noteq> CHR ''_'') (map lower ?u)"
      by (rule fuzz_ASCII)
    also have "\<dots> = ?u" by (induction name) simp_all
    finally show ?thesis by (simp add: stable_def f)
  next
    case False
    then have f: "fuzz unmapped name = ?t" by (simp add: fuzz_filter ToLower_def unmapped_def)
    have "filter (\<lambda>c. c \<noteq> CHR ''-'' \<and> c \<noteq> CHR ''_'') ?t = ?t" by simp
    then have "fuzz unmapped ?t = ?t" using False by (simp add: fuzz_filter ToLower_def unmapped_def)
    then show ?thesis by (simp add: stable_def f)
  qed
qed

lemma fuzz_eval:
  "isASCII name \<Longrightarrow> filter (\<lambda>c. c \<noteq> CHR ''-'' \<and> c \<noteq> CHR ''_'') (map lower name) = n \<Longrightarrow>
   fuzz U name = n"
  by (simp add: fuzz_ASCII)

lemma fuzz_examples:
  "fuzz U ''Go-Links'' = ''golinks''" "fuzz U ''golinks'' = ''golinks''"
  "fuzz U ''GOLINKS'' = ''golinks''" "fuzz U ''go_links'' = ''golinks''"
  "fuzz U ''a-b'' = ''ab''" "fuzz U ''ab'' = ''ab''"
  "fuzz U ''A-b'' = ''ab''" "fuzz U ''a-B'' = ''ab''" "fuzz U ''b'' = ''b''"
  by (rule fuzz_eval, code_simp, code_simp)+

text \<open>
  Claim C6, as stated for any fuzzy store, fails: \<open>get\<close> looks the name itself up first
  and falls back to the normal form only when the name has no entry. On a fuzzy store
  that holds a link under \<open>GOLINKS\<close>, \<open>Get("GOLINKS")\<close> still returns that link after
  \<open>Set("Go-Links", L)\<close>.
\<close>

theorem fuzzy_equivalence_counterexample:
  "fuzzy (Sets unmapped (new_store True) [(''GOLINKS'', ''old'')]) \<and>
   ''new'' \<noteq> [] \<and> CHR '' '' \<notin> set ''new'' \<and>
   snd (Set unmapped (Sets unmapped (new_store True) [(''GOLINKS'', ''old'')]) ''Go-Links'' ''new'' Ok) = None \<and>
   Get unmapped (fst (Set unmapped (Sets unmapped (new_store True) [(''GOLINKS'', ''old'')])
       ''Go-Links'' ''new'' Ok)) ''GOLINKS'' = (''old'', True) \<and>
   Get unmapped (fst (Set unmapped (Sets unmapped (new_store True) [(''GOLINKS'', ''old'')])
       ''Go-Links'' ''new'' Ok)) ''GOLINKS'' \<noteq> (''new'', True)"
  by (simp add: Set_Ok Get_def get_def lookup_def cache_set' fuzz_examples)

text \<open>
  Claim C6, amended. The normal form is the name without \<open>-\<close> and \<open>_\<close>, in lower case;
  for an ASCII name this is the name in lower case without \<open>-\<close> and \<open>_\<close>. \<open>set\<close> stores
  the link under \<open>fuzz name\<close> and \<open>get\<close> falls back to \<open>fuzz name\<close>, the same function.
  After \<open>Set("Go-Links", link)\<close> with a non-empty link on a fuzzy store, \<open>Get("golinks")\<close>
  returns \<open>(link, true)\<close>; on a reachable fuzzy store \<open>Get("GOLINKS")\<close> returns
  \<open>(link, true)\<close> exactly when the index holds no other link under \<open>GOLINKS\<close> itself, and
  the same for \<open>go_links\<close>. On a newly opened fuzzy store all three return \<open>(link, true)\<close>.
\<close>

theorem fuzzy_equivalence:
  "fuzz U name = ToLower U (filter (\<lambda>c. c \<noteq> CHR ''-'' \<and> c \<noteq> CHR ''_'') name) \<and>
   (isASCII name \<longrightarrow>
      fuzz U name = filter (\<lambda>c. c \<noteq> CHR ''-'' \<and> c \<noteq> CHR ''_'') (ToLower U name)) \<and>
   (fuzzy s \<and> link \<noteq> [] \<longrightarrow> cache (set' U s name link) (fuzz U name) = Some link) \<and>
   (fuzzy s \<and> cache s name = None \<longrightarrow> get U s name = lookup (cache s) (fuzz U name)) \<and>
   (link \<noteq> [] \<longrightarrow>
      Get U (fst (Set U (new_store True) ''Go-Links'' link Ok)) ''golinks'' = (link, True) \<and>
      Get U (fst (Set U (new_store True) ''Go-Links'' link Ok)) ''GOLINKS'' = (link, True) \<and>
      Get U (fst (Set U (new_store True) ''Go-Links'' link Ok)) ''go_links'' = (link, True)) \<and>
   (fuzzy s \<and> link \<noteq> [] \<longrightarrow>
      Get U (fst (Set U s ''Go-Links'' link Ok)) ''golinks'' = (link, True)) \<and>
   (reachable U s \<and> fuzzy s \<and> link \<noteq> [] \<longrightarrow>
      (Get U (fst (Set U s ''Go-Links'' link Ok)) ''GOLINKS'' = (link, True)) =
        (cache s ''GOLINKS'' = None \<or> cache s ''GOLINKS'' = Some link) \<and>
      (Get U (fst (Set U s ''Go-Links'' link Ok)) ''go_links'' = (link, True)) =
        (cache s ''go_links'' = None \<or> cache s ''go_links'' = Some link))"
proof -
  have 1: "fuzzy s \<and> link \<noteq> [] \<longrightarrow> cache (set' U s name link) (fuzz U name) = Some link"
    by (simp add: cache_set')
  have 2: "fuzzy s \<and> cache s name = None \<longrightarrow> get U s name = lookup (cache s) (fuzz U name)"
    by (simp add: get_def lookup_def)
  have 3: "link \<noteq> [] \<longrightarrow>
      Get U (fst (Set U (new_store True) ''Go-Links'' link Ok)) ''golinks'' = (link, True) \<and>
      Get U (fst (Set U (new_store True) ''Go-Links'' link Ok)) ''GOLINKS'' = (link, True) \<and>
      Get U (fst (Set U (new_store True) ''Go-Links'' link Ok)) ''go_links'' = (link, True)"
    by (simp add: Set_Ok Get_def get_def lookup_def cache_set' fuzz_examples)
  have 4: "fuzzy s \<and> link \<noteq> [] \<longrightarrow>
      Get U (fst (Set U s ''Go-Links'' link Ok)) ''golinks'' = (link, True)"
    by (simp add: Set_Ok Get_def get_def lookup_def cache_set' fuzz_examples)
  have 5: "(Get U (fst (Set U s ''Go-Links'' link Ok)) ''GOLINKS'' = (link, True)) =
        (cache s ''GOLINKS'' = None \<or> cache s ''GOLINKS'' = Some link) \<and>
      (Get U (fst (Set U s ''Go-Links'' link Ok)) ''go_links'' = (link, True)) =
        (cache s ''go_links'' = None \<or> cache s ''go_links'' = Some link)"
    if r: "reachable U s" and f: "fuzzy s" and l: "link \<noteq> []"
  proof -
    from reachable_no_empty [OF r]
    have "cache s ''GOLINKS'' \<noteq> Some []" "cache s ''go_links'' \<noteq> Some []"
      by (simp_all add: no_empty_link_def)
    with f l show ?thesis
      by (auto simp: Set_Ok Get_def get_def lookup_def cache_set' fuzz_examples split: option.splits)
  qed
  from 1 2 3 4 5 fuzz_filter [of U name] fuzz_normal_form [of name U] show ?thesis by blast
qed

theorem fuzzy_equivalence_witness:
  "isASCII ''Go-Links'' \<and> ''https://go.dev/'' \<noteq> [] \<and>
   reachable unmapped (new_store True) \<and> fuzzy (new_store True) \<and>
   cache (new_store True) ''Go-Links'' = None \<and>
   fuzz unmapped ''Go-Links'' =
     filter (\<lambda>c. c \<noteq> CHR ''-'' \<and> c \<noteq> CHR ''_'') (ToLower unmapped ''Go-Links'') \<and>
   cache (set' unmapped (new_store True) ''Go-Links'' ''https://go.dev/'') (fuzz unmapped ''Go-Links'') =
     Some ''https://go.dev/'' \<and>
   get unmapped (new_store True) ''Go-Links'' = lookup (cache (new_store True)) (fuzz unmapped ''Go-Links'') \<and>
   Get unmapped (fst (Set unmapped (new_store True) ''Go-Links'' ''https://go.dev/'' Ok)) ''golinks'' =
     (''https://go.dev/'', True) \<and>
   (Get unmapped (fst (Set unmapped (new_store True) ''Go-Links'' ''https://go.dev/'' Ok)) ''GOLINKS'' =
     (''https://go.dev/'', True)) =
     (cache (new_store True) ''GOLINKS'' = None \<or> cache (new_store True) ''GOLINKS'' = Some ''https://go.dev/'') \<and>
   Get unmapped (fst (Set unmapped (new_store True) ''Go-Links'' ''https://go.dev/'' Ok)) ''GOLINKS'' =
     (''https://go.dev/'', True) \<and>
   Get unmapped (fst (Set unmapped (new_store True) ''Go-Links'' ''https://go.dev/'' Ok)) ''go_links'' =
     (''https://go.dev/'', True)"
proof -
  have a: "isASCII ''Go-Links''" by (simp add: isASCII_def)
  have l: "''https://go.dev/'' \<noteq> []" by simp
  have r: "reachable unmapped (new_store True)"
    using opened [OF Open_empty [of unmapped "''links''" True]] .
  have f: "fuzzy (new_store True)" "cache (new_store True) ''Go-Links'' = None"
    "cache (new_store True) ''GOLINKS'' = None" by simp_all
  note t = fuzzy_equivalence
    [where name = "''Go-Links''" and s = "new_store True" and link = "''https://go.dev/''"
       and U = unmapped]
  from t a l r f show ?thesis by blast
qed

subsection \<open>Sequences of writes\<close>

lemma Sets_Cons: "Sets U s (w # ws) = Sets U (fst (Set U s (fst w) (snd w) Ok)) ws"
  by (cases w) simp

lemma Sets_append: "Sets U s (ws @ vs) = Sets U (Sets U s ws) vs"
  by (induction ws arbitrary: s) (simp_all add: Sets_Cons)

lemma Sets_snoc: "Sets U s (ws @ [(name, link)]) = fst (Set U (Sets U s ws) name link Ok)"
  by (simp add: Sets_append)

lemma fuzzy_Sets [simp]: "fuzzy (Sets U s ws) = fuzzy s"
  by (induction ws arbitrary: s) (simp_all add: Sets_Cons Set_Ok)

lemma order_Sets: "order (Sets U s ws) = order s @ map fst ws"
  by (induction ws arbitrary: s) (simp_all add: Sets_Cons Set_Ok)

lemma last_write_snoc:
  "last_write_of_form U (ws @ [(name, link)]) n =
     (if fuzz U name = n then Some (name, link) else last_write_of_form U ws n)"
  by (simp add: last_write_of_form_def)

lemma find_Some_holds: "find P xs = Some x \<Longrightarrow> P x"
  by (induction xs) (auto split: if_splits)

lemma last_write_form: "last_write_of_form U ws n = Some (name, link) \<Longrightarrow> fuzz U name = n"
  unfolding last_write_of_form_def by (drule find_Some_holds) simp

lemma cache_Sets_snoc:
  "cache (Sets U s (ws @ [(name, link)])) =
     (if fuzzy s then (cache (Sets U s ws))(name := if link = [] then None else Some link,
                           fuzz U name := if link = [] then None else Some link)
      else (cache (Sets U s ws))(name := if link = [] then None else Some link))"
  by (simp add: Sets_snoc Set_Ok cache_set')

lemma find_Some_mem: "find P xs = Some x \<Longrightarrow> x \<in> set xs"
  by (induction xs) (auto split: if_splits)

lemma last_write_mem: "last_write_of_form U ws n = Some (name, link) \<Longrightarrow> (name, link) \<in> set ws"
  unfolding last_write_of_form_def by (drule find_Some_mem) simp

lemma normal_form_absent:
  assumes fz: "fuzzy s" and em: "cache s = Map.empty" and n: "fuzz U n = n"
  shows "last_write_of_form U ws n = None \<Longrightarrow> cache (Sets U s ws) n = None"
proof (induction ws rule: rev_induct)
  case Nil
  show ?case by (simp add: em)
next
  case (snoc w ws)
  obtain k l where w: "w = (k, l)" by (cases w)
  from snoc.prems have f: "fuzz U k \<noteq> n" and lw: "last_write_of_form U ws n = None"
    by (simp_all add: w last_write_snoc split: if_splits)
  from f n have "k \<noteq> n" by auto
  with f snoc.IH [OF lw] show ?case by (simp add: w cache_Sets_snoc fz)
qed

lemma normal_form_entry:
  assumes fz: "fuzzy s" and em: "cache s = Map.empty"
    and st: "list_all (stable U) (map fst ws)"
    and lw: "last_write_of_form U ws n = Some (name, link)"
  shows "cache (Sets U s ws) n = (if link = [] then None else Some link) \<and>
         cache (Sets U s ws) name = cache (Sets U s ws) n"
  using st lw
proof (induction ws arbitrary: name link rule: rev_induct)
  case Nil
  then show ?case by (simp add: last_write_of_form_def)
next
  case (snoc w ws)
  obtain k l where w: "w = (k, l)" by (cases w)
  let ?c = "cache (Sets U s ws)"
  let ?v = "if l = [] then None else Some l"
  have c: "cache (Sets U s (ws @ [w])) = ?c(k := ?v, fuzz U k := ?v)"
    by (simp add: w cache_Sets_snoc fz)
  from snoc.prems(1) have "stable U k" and sw: "list_all (stable U) (map fst ws)"
    by (simp_all add: w)
  then have sk: "fuzz U (fuzz U k) = fuzz U k" by (simp add: stable_def)
  show ?case
  proof (cases "fuzz U k = n")
    case True
    with snoc.prems(2) have "name = k" "link = l"
      by (simp_all add: w last_write_snoc)
    then show ?thesis by (simp add: c True)
  next
    case False
    with snoc.prems(2) have lw: "last_write_of_form U ws n = Some (name, link)"
      by (simp add: w last_write_snoc)
    then have f: "fuzz U name = n" by (rule last_write_form)
    from last_write_mem [OF lw] sw have "stable U name"
      by (auto simp: list_all_iff)
    then have sn: "fuzz U (fuzz U name) = fuzz U name" by (simp add: stable_def)
    from snoc.IH [OF sw lw]
    have IH: "?c n = (if link = [] then None else Some link)" "?c name = ?c n" by simp_all
    from f False have 1: "name \<noteq> k" by auto
    from f False have 2: "name \<noteq> fuzz U k" using sk by auto
    from f False have 3: "n \<noteq> k" using sn by auto
    from False have 4: "n \<noteq> fuzz U k" by auto
    have "cache (Sets U s (ws @ [w])) n = ?c n" "cache (Sets U s (ws @ [w])) name = ?c name"
      using 1 2 3 4 by (simp_all add: c)
    with IH show ?thesis by simp
  qed
qed

subsection \<open>Iterate\<close>

lemma remdups_snoc: "remdups (xs @ [x]) = filter (\<lambda>y. y \<noteq> x) (remdups xs) @ [x]"
  by (induction xs) auto

lemma first_occurrences_Cons:
  "rev (remdups (rev (x # xs))) = x # filter (\<lambda>y. y \<noteq> x) (rev (remdups (rev xs)))"
  by (simp add: remdups_snoc rev_filter)

lemma iterate_loop_append:
  "iterate_loop U s (\<lambda>name link acc. (acc @ [f name link], None)) todo seen acc =
    (acc @ map (\<lambda>name. f name (fst (get U s name)))
       (filter (\<lambda>name. snd (get U s name) \<and> name \<notin> seen) (rev (remdups (rev todo)))), None)"
proof (induction todo arbitrary: seen acc)
  case Nil
  show ?case by simp
next
  case (Cons n todo)
  have eq: "(\<lambda>x. x \<noteq> n \<and> snd (get U s x) \<and> x \<notin> seen) = (\<lambda>x. snd (get U s x) \<and> x \<noteq> n \<and> x \<notin> seen)"
    by auto
  show ?case
    by (cases "get U s n") (simp add: Cons.IH first_occurrences_Cons Let_def eq del: remdups.simps rev.simps)
qed

lemma Iterate_append:
  "Iterate U s (\<lambda>name link acc. (acc @ [f name link], None)) [] =
    (map (\<lambda>name. f name (fst (get U s name)))
       (filter (\<lambda>name. snd (get U s name)) (rev (remdups (order s)))), None)"
  by (simp add: Iterate_def iterate_loop_append)

lemma collect_append: "collect = (\<lambda>name link acc. (acc @ [(name, link)], None))"
  by (intro ext) (simp add: collect_def)

lemma dump_cb_append: "dump_cb = (\<lambda>name link acc. (acc @ [record_line name link], None))"
  by (intro ext) (simp add: dump_cb_def)

lemma visited_eq:
  "visited U s = map (\<lambda>name. (name, fst (get U s name)))
       (filter (\<lambda>name. snd (get U s name)) (rev (remdups (order s))))"
  by (simp add: visited_def collect_append Iterate_append [where f = Pair])

lemma Dump_eq:
  "Dump U s = concat (rev (map (\<lambda>(name, link). record_line name link) (visited U s)))"
  by (simp add: Dump_def visited_eq dump_cb_append Iterate_append [where f = record_line] comp_def)


lemma Sets_new_order: "order (Sets U (new_store fz) ws) = map fst ws"
  by (simp add: order_Sets)

lemma last_link_snoc:
  "last_link (ws @ [(name, link)]) n = (if n = name then Some link else last_link ws n)"
  by (simp add: last_link_def)

lemma index_spec_snoc:
  "index_spec (ws @ [(name, link)]) n =
     (if n = name then (if link = [] then None else Some link) else index_spec ws n)"
  by (simp add: index_spec_def last_link_snoc)

lemma cache_Sets_plain: "cache (Sets U (new_store False) ws) = index_spec ws"
proof (induction ws rule: rev_induct)
  case Nil
  show ?case by (simp add: index_spec_def last_link_def)
next
  case (snoc w ws)
  obtain name link where w: "w = (name, link)" by (cases w)
  show ?case
    by (rule ext) (simp add: w cache_Sets_snoc snoc.IH index_spec_snoc)
qed

lemma no_empty_Sets: "no_empty_link s \<Longrightarrow> no_empty_link (Sets U s ws)"
  by (induction ws arbitrary: s) (simp_all add: Sets_Cons no_empty_Set)

lemma no_empty_new [simp]: "no_empty_link (new_store fz)"
  by (simp add: no_empty_link_def new_store_def)

lemma Get_get:
  "no_empty_link s \<Longrightarrow> Get U s name = (if snd (get U s name) then (fst (get U s name), True) else ([], False))"
  by (auto simp: Get_def get_def lookup_def no_empty_link_def Let_def split: option.splits)

lemma get_plain: "\<not> fuzzy s \<Longrightarrow> get U s name = lookup (cache s) name"
  by (simp add: get_def split: prod.splits)

lemma visited_plain: "visited U (Sets U (new_store False) ws) = iterate_spec ws"
proof -
  let ?s = "Sets U (new_store False) ws"
  have nf: "\<not> fuzzy ?s" by simp
  have g: "get U ?s = lookup (index_spec ws)"
    by (rule ext) (simp add: get_plain [OF nf] cache_Sets_plain)
  have "map (\<lambda>name. (name, fst (lookup (index_spec ws) name)))
          (filter (\<lambda>name. snd (lookup (index_spec ws) name)) ks) =
        List.map_filter (\<lambda>name. map_option (Pair name) (index_spec ws name)) ks" for ks
    by (induction ks) (auto simp: lookup_def split: option.splits)
  then show ?thesis
    by (simp add: visited_eq g Sets_new_order iterate_spec_def)
qed

lemma keys_iterate_spec:
  "map fst (iterate_spec ws) = filter (\<lambda>name. index_spec ws name \<noteq> None) (rev (remdups (map fst ws)))"
proof -
  have "map fst (List.map_filter (\<lambda>name. map_option (Pair name) (index_spec ws name)) ks) =
        filter (\<lambda>name. index_spec ws name \<noteq> None) ks" for ks
    by (induction ks) (auto split: option.splits)
  then show ?thesis by (simp add: iterate_spec_def)
qed

lemma index_spec_written: "index_spec ws name \<noteq> None \<Longrightarrow> name \<in> set (map fst ws)"
  by (force simp: index_spec_def last_link_def split: option.splits dest!: map_of_SomeD)

lemma live_keys_iterate_spec:
  "set (map fst (iterate_spec ws)) = {name. index_spec ws name \<noteq> None}"
  using index_spec_written by (auto simp: keys_iterate_spec)

lemma Get_plain_found:
  "snd (Get U (Sets U (new_store False) ws) name) = (index_spec ws name \<noteq> None)"
proof -
  have "no_empty_link (Sets U (new_store False) ws)" by (simp add: no_empty_Sets)
  then show ?thesis
    by (simp add: Get_get get_plain cache_Sets_plain lookup_def split: option.splits)
qed

lemma visited_keys:
  "map fst (visited U (Sets U (new_store fz) ws)) =
     filter (\<lambda>name. snd (Get U (Sets U (new_store fz) ws) name)) (rev (remdups (map fst ws)))"
proof -
  have "no_empty_link (Sets U (new_store fz) ws)" by (simp add: no_empty_Sets)
  then have "snd (Get U (Sets U (new_store fz) ws) name) = snd (get U (Sets U (new_store fz) ws) name)" for name
    by (simp add: Get_get)
  then show ?thesis by (simp add: visited_eq Sets_new_order comp_def)
qed

lemma visited_links:
  "(name, link) \<in> set (visited U (Sets U (new_store fz) ws)) \<Longrightarrow>
     Get U (Sets U (new_store fz) ws) name = (link, True)"
proof -
  assume a: "(name, link) \<in> set (visited U (Sets U (new_store fz) ws))"
  have "no_empty_link (Sets U (new_store fz) ws)" by (simp add: no_empty_Sets)
  with a show ?thesis by (auto simp: visited_eq Get_get)
qed

lemma three_writes:
  assumes "a \<noteq> b" "fz \<longrightarrow> b \<noteq> fuzz U a" "y \<noteq> []" "z \<noteq> []"
  shows "visited U (Sets U (new_store fz) [(a, x), (b, y), (a, z)]) = [(a, z), (b, y)]"
  using assms by (cases fz) (simp_all add: visited_eq Set_Ok get_def lookup_def cache_set')

lemma tombstone_excluded:
  assumes "a \<noteq> b" "fz \<longrightarrow> b \<noteq> fuzz U a" "y \<noteq> []"
  shows "visited U (Sets U (new_store fz) [(a, x), (b, y), (a, [])]) = [(b, y)]"
  using assms by (cases fz) (simp_all add: visited_eq Set_Ok get_def lookup_def cache_set')

subsection \<open>Replaying the log\<close>

lemma takeWhile_line: "c \<notin> set l \<Longrightarrow> takeWhile (\<lambda>x. x \<noteq> c) (l @ c # rest) = l"
  by (induction l) auto

lemma scan_Nil [simp]: "scan [] = []"
  by (simp add: scan.simps)

lemma scan_line: "newline \<notin> set l \<Longrightarrow> scan (l @ newline # rest) = l # scan rest"
  by (subst scan.simps) (simp add: takeWhile_line Let_def)

lemma scan_last_line:
  assumes "newline \<notin> set l" "l \<noteq> []"
  shows "scan l = [l]"
proof -
  from assms(1) have tw: "takeWhile (\<lambda>c. c \<noteq> newline) l = l"
    by (induction l) auto
  show ?thesis
    by (subst scan.simps) (simp add: Let_def tw assms(2))
qed

lemma Split_none: "sep \<notin> set a \<Longrightarrow> Split a sep = [a]"
  by (induction a) auto

lemma Split_first: "sep \<notin> set a \<Longrightarrow> Split (a @ sep # b) sep = a # Split b sep"
  by (induction a) auto


lemma file'_Sets: "file' (Sets U s ws) = file' s @ log_of ws"
  by (induction ws arbitrary: s) (simp_all add: Sets_Cons Set_Ok log_of_def split: prod.splits)

lemma set'_file'_order:
  "set' U (s\<lparr>file' := f, order := xs\<rparr>) name link = (set' U (s\<lparr>order := xs\<rparr>) name link)\<lparr>file' := f\<rparr>"
  by (simp add: set'_def Let_def)

lemma Sets_file': "(Sets U (s\<lparr>file' := f\<rparr>) ws)\<lparr>file' := g\<rparr> = (Sets U s ws)\<lparr>file' := g\<rparr>"
proof (induction ws arbitrary: s f)
  case Nil
  show ?case by simp
next
  case (Cons w ws)
  let ?t = "set' U (s\<lparr>order := order s @ [fst w]\<rparr>) (fst w) (snd w)"
  have "Sets U (s\<lparr>file' := f\<rparr>) (w # ws) = Sets U (?t\<lparr>file' := f @ record_line (fst w) (snd w)\<rparr>) ws"
    by (simp add: Sets_Cons Set_Ok set'_file'_order)
  moreover have "Sets U s (w # ws) = Sets U (?t\<lparr>file' := file' s @ record_line (fst w) (snd w)\<rparr>) ws"
    by (simp add: Sets_Cons Set_Ok set'_file'_order)
  ultimately show ?case by (simp only: Cons.IH)
qed

lemma scan_log_of:
  "list_all (\<lambda>(name, link). newline \<notin> set name \<and> newline \<notin> set link) ws \<Longrightarrow>
   scan (log_of ws @ rest) = map (\<lambda>(name, link). name @ CHR '' '' # link) ws @ scan rest"
proof (induction ws)
  case Nil
  show ?case by (simp add: log_of_def)
next
  case (Cons w ws)
  obtain name link where w: "w = (name, link)" by (cases w)
  from Cons.prems w have nl: "newline \<notin> set (name @ CHR '' '' # link)"
    by (simp add: newline_def)
  have "log_of (w # ws) @ rest = (name @ CHR '' '' # link) @ newline # (log_of ws @ rest)"
    by (simp add: log_of_def w record_line_def)
  then show ?case using Cons scan_line [OF nl] by (simp add: w)
qed

lemma clean_line:
  assumes "clean name link"
  shows "dropCR (name @ CHR '' '' # link) = name @ CHR '' '' # link"
    and "Split (name @ CHR '' '' # link) (CHR '' '') = [name, link]"
    and "\<not> MaxScanTokenSize \<le> Suc (length name + length link)"
  using assms by (auto simp: clean_def dropCR_def cr_def Split_first Split_none)

lemma replay_clean:
  "list_all (\<lambda>(name, link). clean name link) ws \<Longrightarrow>
   replay U filename s (map (\<lambda>(name, link). name @ CHR '' '' # link) ws) =
     Inr ((Sets U s ws)\<lparr>file' := file' s\<rparr>)"
proof (induction ws arbitrary: s)
  case Nil
  show ?case by simp
next
  case (Cons w ws)
  obtain name link where w: "w = (name, link)" by (cases w)
  from Cons.prems w have c: "clean name link" and cs: "list_all (\<lambda>(name, link). clean name link) ws"
    by simp_all
  let ?t = "set' U (s\<lparr>order := order s @ [name]\<rparr>) name link"
  have "replay U filename s (map (\<lambda>(name, link). name @ CHR '' '' # link) (w # ws)) =
        replay U filename ?t (map (\<lambda>(name, link). name @ CHR '' '' # link) ws)"
    by (simp add: w clean_line [OF c] Let_def)
  also have "\<dots> = Inr ((Sets U ?t ws)\<lparr>file' := file' s\<rparr>)"
    using Cons.IH [OF cs, of ?t] by simp
  also have "(Sets U ?t ws)\<lparr>file' := file' s\<rparr> = (Sets U s (w # ws))\<lparr>file' := file' s\<rparr>"
  proof -
    have "fst (Set U s name link Ok) = ?t\<lparr>file' := file' s @ record_line name link\<rparr>"
      by (simp add: Set_Ok set'_def Let_def)
    then show ?thesis by (simp add: w Sets_file')
  qed
  finally show ?case .
qed

lemma clean_no_newline:
  "list_all (\<lambda>(name, link). clean name link) ws \<Longrightarrow>
   list_all (\<lambda>(name, link). newline \<notin> set name \<and> newline \<notin> set link) ws"
  by (induction ws) (auto simp: clean_def)

lemma Open_plain:
  "Open U filename data [fz] =
     replay U filename ((new_store fz)\<lparr>file' := data\<rparr>) (scan data)"
  by (subst Open.simps) (simp add: new_store_def split: sum.splits)

lemma reopen_clean:
  assumes "list_all (\<lambda>(name, link). clean name link) ws"
  shows "Open U filename (file' (Sets U (new_store fz) ws)) [fz] = Inr (Sets U (new_store fz) ws)"
proof -
  let ?s = "Sets U (new_store fz) ws"
  have f: "file' ?s = log_of ws" by (simp add: file'_Sets)
  have "scan (log_of ws @ []) = map (\<lambda>(name, link). name @ CHR '' '' # link) ws @ scan []"
    by (rule scan_log_of [OF clean_no_newline [OF assms]])
  then have sc: "scan (log_of ws) = map (\<lambda>(name, link). name @ CHR '' '' # link) ws" by simp
  have "Open U filename (log_of ws) [fz] =
        Inr ((Sets U ((new_store fz)\<lparr>file' := log_of ws\<rparr>) ws)\<lparr>file' := log_of ws\<rparr>)"
    by (simp add: Open_plain sc replay_clean [OF assms])
  also have "(Sets U ((new_store fz)\<lparr>file' := log_of ws\<rparr>) ws)\<lparr>file' := log_of ws\<rparr> =
             ?s\<lparr>file' := log_of ws\<rparr>"
    by (rule Sets_file')
  also have "\<dots> = ?s" using f by simp
  finally show ?thesis by (simp add: f)
qed

lemma reopen_examples:
  "Get U (Sets U (new_store False) [(''k'', ''a b'')]) ''k'' = (''a b'', True) \<and>
   map_sum id (\<lambda>s. Get U s ''k'')
     (Open U ''links'' (file' (Sets U (new_store False) [(''k'', ''a b'')])) [False]) =
     Inl (InvalidLine ''links'' ''k a b'') \<and>
   map_sum id (\<lambda>s. Get U s ''a b'')
     (Open U ''links'' (file' (Sets U (new_store False) [(''a b'', ''c'')])) [False]) =
     Inl (InvalidLine ''links'' ''a b c'') \<and>
   Get U (Sets U (new_store False) [(''k'', [CHR ''x'', newline, CHR ''y''])]) ''k'' =
     ([CHR ''x'', newline, CHR ''y''], True) \<and>
   map_sum id (\<lambda>s. Get U s ''k'')
     (Open U ''links'' (file' (Sets U (new_store False) [(''k'', [CHR ''x'', newline, CHR ''y''])])) [False]) =
     Inr (''x'', True) \<and>
   Get U (Sets U (new_store False) [(''k'', [CHR ''x'', cr])]) ''k'' = ([CHR ''x'', cr], True) \<and>
   map_sum id (\<lambda>s. Get U s ''k'')
     (Open U ''links'' (file' (Sets U (new_store False) [(''k'', [CHR ''x'', cr])])) [False]) =
     Inr (''x'', True)"
  by (simp add: Open_plain Set_Ok record_line_def scan.simps newline_def cr_def dropCR_def
      MaxScanTokenSize_def Let_def Get_def get_def lookup_def cache_set')

lemma reopen_too_long:
  "Open U ''links'' (file' (Sets U (new_store False) [(replicate MaxScanTokenSize (CHR ''a''), ''x'')])) [False] =
     Inl ErrTooLong"
proof -
  let ?l = "replicate MaxScanTokenSize (CHR ''a'') @ '' x''"
  have nl: "newline \<notin> set ?l" by (auto simp: newline_def)
  have "file' (Sets U (new_store False) [(replicate MaxScanTokenSize (CHR ''a''), ''x'')]) = ?l @ newline # []"
    by (simp add: Set_Ok record_line_def)
  moreover have "scan (?l @ newline # []) = [?l]"
    using scan_line [OF nl, of "[]"] by simp
  ultimately show ?thesis by (simp add: Open_plain)
qed

text \<open>
  Claim C3, as stated for all names and links, fails: a space in a link or in a name makes
  \<open>Open\<close> fail with the invalid-line error, a newline in a link cuts the record in two,
  a carriage return at the end of a link is dropped, and a record of 65536 bytes or more
  stops the scanner with \<open>ErrTooLong\<close>.
\<close>

theorem reopen_after_Sets_counterexample:
  "Get unmapped (Sets unmapped (new_store False) [(''k'', ''a b'')]) ''k'' = (''a b'', True) \<and>
   map_sum id (\<lambda>s. Get unmapped s ''k'')
     (Open unmapped ''links'' (file' (Sets unmapped (new_store False) [(''k'', ''a b'')])) [False]) =
     Inl (InvalidLine ''links'' ''k a b'') \<and>
   map_sum id (\<lambda>s. Get unmapped s ''a b'')
     (Open unmapped ''links'' (file' (Sets unmapped (new_store False) [(''a b'', ''c'')])) [False]) =
     Inl (InvalidLine ''links'' ''a b c'') \<and>
   Get unmapped (Sets unmapped (new_store False) [(''k'', [CHR ''x'', newline, CHR ''y''])]) ''k'' =
     ([CHR ''x'', newline, CHR ''y''], True) \<and>
   map_sum id (\<lambda>s. Get unmapped s ''k'')
     (Open unmapped ''links'' (file' (Sets unmapped (new_store False) [(''k'', [CHR ''x'', newline, CHR ''y''])])) [False]) =
     Inr (''x'', True) \<and>
   Get unmapped (Sets unmapped (new_store False) [(''k'', [CHR ''x'', cr])]) ''k'' = ([CHR ''x'', cr], True) \<and>
   map_sum id (\<lambda>s. Get unmapped s ''k'')
     (Open unmapped ''links'' (file' (Sets unmapped (new_store False) [(''k'', [CHR ''x'', cr])])) [False]) =
     Inr (''x'', True) \<and>
   Open unmapped ''links'' (file' (Sets unmapped (new_store False) [(replicate MaxScanTokenSize (CHR ''a''), ''x'')])) [False] =
      Inl ErrTooLong"
  using reopen_examples reopen_too_long by blast

text \<open>
  Claim C3, amended. For every sequence of successful \<open>Set\<close> calls with \<open>clean\<close> names
  and links on a store opened from an empty file, opening the file again with the same
  fuzzy setting returns the same store: the same index and order, so \<open>Get\<close> returns the
  same result for every name.
\<close>

theorem reopen_after_Sets:
  "list_all (\<lambda>(name, link). clean name link) ws \<Longrightarrow>
     Open U filename (file' (Sets U (new_store fz) ws)) [fz] = Inr (Sets U (new_store fz) ws) \<and>
     map_sum id (\<lambda>s. Get U s name) (Open U filename (file' (Sets U (new_store fz) ws)) [fz]) =
       Inr (Get U (Sets U (new_store fz) ws) name)"
  by (simp add: reopen_clean)

theorem reopen_after_Sets_witness:
  "list_all (\<lambda>(name, link). clean name link)
     [(''go'', ''https://go.dev''), (''Go-Links'', ''x''), (''go'', [])] \<and>
   Open unmapped ''links'' (file' (Sets unmapped (new_store True)
     [(''go'', ''https://go.dev''), (''Go-Links'', ''x''), (''go'', [])])) [True] =
     Inr (Sets unmapped (new_store True) [(''go'', ''https://go.dev''), (''Go-Links'', ''x''), (''go'', [])]) \<and>
   map_sum id (\<lambda>s. Get unmapped s ''golinks'') (Open unmapped ''links'' (file' (Sets unmapped (new_store True)
     [(''go'', ''https://go.dev''), (''Go-Links'', ''x''), (''go'', [])])) [True]) =
     Inr (Get unmapped (Sets unmapped (new_store True) [(''go'', ''https://go.dev''), (''Go-Links'', ''x''), (''go'', [])]) ''golinks'')"
proof -
  have h: "list_all (\<lambda>(name, link). clean name link)
     [(''go'', ''https://go.dev''), (''Go-Links'', ''x''), (''go'', [])]"
    by (simp add: clean_def newline_def cr_def MaxScanTokenSize_def)
  from reopen_after_Sets [OF h, where filename = "''links''" and fz = True and name = "''golinks''"] h
  show ?thesis by blast
qed

subsection \<open>A link with a space\<close>






















subsection \<open>Every reachable store has a history of writes\<close>

text \<open>
  The replay loop of \<open>Open\<close> does to \<open>order\<close> and \<open>cache\<close> what \<open>Set\<close> does, line by
  line, and a failed \<open>Set\<close> changes the file only. So every reachable store has the
  \<open>order\<close> and \<open>cache\<close> of some sequence of successful writes to a new store.
\<close>

lemma replay_history:
  "replay U filename s raws = Inr s1 \<Longrightarrow> \<exists>ws. s1 = (Sets U s ws)\<lparr>file' := file' s\<rparr>"
proof (induction raws arbitrary: s)
  case Nil
  then have "s1 = (Sets U s [])\<lparr>file' := file' s\<rparr>" by simp
  then show ?case by blast
next
  case (Cons raw rest)
  from Cons.prems obtain name link
    where r: "replay U filename (set' U (s\<lparr>order := order s @ [name]\<rparr>) name link) rest = Inr s1"
    by (blast dest: replay_Cons_Inr)
  let ?t = "set' U (s\<lparr>order := order s @ [name]\<rparr>) name link"
  from Cons.IH [OF r] obtain ws where ws: "s1 = (Sets U ?t ws)\<lparr>file' := file' s\<rparr>" by auto
  have "fst (Set U s name link Ok) = ?t\<lparr>file' := file' s @ record_line name link\<rparr>"
    by (simp add: Set_Ok set'_def Let_def)
  then have "(Sets U s ((name, link) # ws))\<lparr>file' := file' s\<rparr> = (Sets U ?t ws)\<lparr>file' := file' s\<rparr>"
    by (simp add: Sets_file')
  with ws have "s1 = (Sets U s ((name, link) # ws))\<lparr>file' := file' s\<rparr>" by simp
  then show ?case by blast
qed

lemma Open_history:
  "Open U filename data bools = Inr s \<Longrightarrow> \<exists>fz ws f. s = (Sets U (new_store fz) ws)\<lparr>file' := f\<rparr>"
proof (induction U filename data bools arbitrary: s rule: Open.induct)
  case (1 U filename data bools)
  let ?fz = "if length bools > 0 then bools ! 0 else False"
  let ?s0 = "\<lparr>fuzzy = ?fz, order = [], cache = Map.empty, file' = data\<rparr>"
  from "1.prems" obtain s1 where r: "replay U filename ?s0 (scan data) = Inr s1"
    by (subst (asm) Open.simps) (auto simp: Let_def split: sum.splits)
  show ?case
  proof (cases "length bools > 1 \<and> bools ! 1")
    case True
    with "1.prems" r have "Open U filename (Dump U s1) [?fz, False] = Inr s"
      by (subst (asm) Open.simps) (auto simp: Let_def split: if_splits)
    with "1.IH" [OF refl refl refl r] True show ?thesis by auto
  next
    case False
    with "1.prems" r have "s = s1"
      by (subst (asm) Open.simps) (auto simp: Let_def split: if_splits)
    moreover from replay_history [OF r] obtain ws where "s1 = (Sets U ?s0 ws)\<lparr>file' := data\<rparr>"
      by auto
    moreover have "?s0 = (new_store ?fz)\<lparr>file' := data\<rparr>" by (simp add: new_store_def)
    ultimately have "s = (Sets U (new_store ?fz) ws)\<lparr>file' := data\<rparr>"
      by (simp only: Sets_file')
    then show ?thesis by blast
  qed
qed

lemma reachable_history:
  "reachable U s \<Longrightarrow> \<exists>fz ws f. s = (Sets U (new_store fz) ws)\<lparr>file' := f\<rparr>"
proof (induction rule: reachable.induct)
  case (opened filename data bools s)
  then show ?case by (rule Open_history)
next
  case (written s name link w)
  then obtain fz ws f where s: "s = (Sets U (new_store fz) ws)\<lparr>file' := f\<rparr>" by blast
  show ?case
  proof (cases w)
    case Ok
    have "fst (Set U s name link Ok) =
          (Sets U (new_store fz) (ws @ [(name, link)]))\<lparr>file' := f @ record_line name link\<rparr>"
      by (simp add: s Sets_snoc Set_Ok set'_file'_order set'_file')
    with Ok show ?thesis by blast
  next
    case (Fail n)
    have "fst (Set U s name link (Fail n)) =
          (Sets U (new_store fz) ws)\<lparr>file' := f @ take n (record_line name link)\<rparr>"
      by (simp add: s Set_Fail)
    with Fail show ?thesis by blast
  qed
qed

lemma reachable_Sets: "reachable U (Sets U (new_store fz) ws)"
proof (induction ws rule: rev_induct)
  case Nil
  show ?case using opened [OF Open_empty [of U "[]" fz]] by simp
next
  case (snoc w ws)
  obtain name link where "w = (name, link)" by (cases w)
  with written [OF snoc, of name link Ok] show ?case by (simp add: Sets_snoc)
qed

lemma visited_file' [simp]: "visited U (s\<lparr>file' := f\<rparr>) = visited U s"
  by (simp add: visited_def)

lemma Dump_file' [simp]: "Dump U (s\<lparr>file' := f\<rparr>) = Dump U s"
  by (simp add: Dump_def)

lemma reachable_visited:
  assumes "reachable U s"
  shows "map fst (visited U s) = filter (\<lambda>name. snd (Get U s name)) (rev (remdups (order s)))"
    and "distinct (map fst (visited U s))"
    and "(name, link) \<in> set (visited U s) \<Longrightarrow> Get U s name = (link, True)"
proof -
  from reachable_history [OF assms] obtain fz ws f
    where s: "s = (Sets U (new_store fz) ws)\<lparr>file' := f\<rparr>" by blast
  show k: "map fst (visited U s) = filter (\<lambda>name. snd (Get U s name)) (rev (remdups (order s)))"
    using visited_keys [of U fz ws] by (simp add: s Sets_new_order)
  show "distinct (map fst (visited U s))" by (simp add: k)
  show "(name, link) \<in> set (visited U s) \<Longrightarrow> Get U s name = (link, True)"
    using visited_links [of name link U fz ws] by (simp add: s)
qed

lemma reachable_plain_visited:
  assumes "reachable U s" "\<not> fuzzy s"
  shows "set (map fst (visited U s)) = {name. snd (Get U s name)}"
    and "set (map fst (visited U s)) = dom (cache s)"
proof -
  from reachable_history [OF assms(1)] obtain fz ws f
    where s: "s = (Sets U (new_store fz) ws)\<lparr>file' := f\<rparr>" by blast
  with assms(2) have fz: "fz = False" by simp
  have v: "set (map fst (visited U s)) = {name. index_spec ws name \<noteq> None}"
    by (simp only: s fz visited_file' visited_plain live_keys_iterate_spec)
  show "set (map fst (visited U s)) = {name. snd (Get U s name)}"
    by (simp only: v) (simp only: s fz Get_file' Get_plain_found)
  show "set (map fst (visited U s)) = dom (cache s)"
    by (simp only: v) (auto simp: s fz cache_Sets_plain)
qed

subsection \<open>The normal form in the index\<close>

lemma find_map_fst:
  "find P (map fst xs) = map_option fst (find (\<lambda>(a, b). P a) xs)"
  by (induction xs) auto

lemma reachable_normal_form:
  assumes r: "reachable U s" and fz: "fuzzy s" and st: "list_all (stable U) (order s)"
    and k: "find (\<lambda>k. fuzz U k = n) (rev (order s)) = Some k"
  shows "cache s n = cache s k"
proof -
  from reachable_history [OF r] obtain fz' ws f
    where s: "s = (Sets U (new_store fz') ws)\<lparr>file' := f\<rparr>" by blast
  with fz have t: "fz' = True" by simp
  have o: "order s = map fst ws" by (simp add: s Sets_new_order)
  with k have "map_option fst (last_write_of_form U ws n) = Some k"
    by (simp add: last_write_of_form_def rev_map find_map_fst)
  then obtain link where lw: "last_write_of_form U ws n = Some (k, link)" by auto
  from st have "list_all (stable U) (map fst ws)" by (simp only: o)
  from normal_form_entry [OF _ _ this lw, of "new_store True"]
  have "cache (Sets U (new_store True) ws) k = cache (Sets U (new_store True) ws) n" by simp
  then show ?thesis by (simp add: s t)
qed

text \<open>
  Claim C7 (invariant I4). In fuzzy mode, after any sequence of writes to a newly opened
  store: when \<open>(name, link)\<close> is the most recent write among the names with normal form
  \<open>n\<close> (a tombstone is a write), the index maps \<open>n\<close> to \<open>link\<close>, or has no entry for
  \<open>n\<close> when that write was a tombstone, and \<open>name\<close> and \<open>n\<close> have the same entry.
  A normal form that no written name has is absent from the index. In every reachable
  fuzzy store, the normal form \<open>n\<close> and the name in \<open>order\<close> that was written last
  among the names of normal form \<open>n\<close> have the same entry, or both have none.
  The written names are \<open>stable\<close>: every ASCII name is, whatever the mapping \<open>U\<close>,
  and every name is when \<open>U\<close> is a \<open>lower_casing\<close>.
\<close>

theorem normal_form_follows_last_write:
  "(list_all (stable U) (map fst ws) \<and> last_write_of_form U ws n = Some (name, link) \<longrightarrow>
      cache (Sets U (new_store True) ws) n = (if link = [] then None else Some link) \<and>
      cache (Sets U (new_store True) ws) name = cache (Sets U (new_store True) ws) n) \<and>
   (last_write_of_form U ws n = None \<and> fuzz U n = n \<longrightarrow> cache (Sets U (new_store True) ws) n = None) \<and>
   (reachable U s \<and> fuzzy s \<and> list_all (stable U) (order s) \<and>
    find (\<lambda>k. fuzz U k = n) (rev (order s)) = Some k \<longrightarrow>
      cache s n = cache s k) \<and>
   (list_all isASCII (map fst ws) \<or> lower_casing U \<longrightarrow> list_all (stable U) (map fst ws))"
proof -
  have 1: "list_all (stable U) (map fst ws) \<and> last_write_of_form U ws n = Some (name, link) \<longrightarrow>
      cache (Sets U (new_store True) ws) n = (if link = [] then None else Some link) \<and>
      cache (Sets U (new_store True) ws) name = cache (Sets U (new_store True) ws) n"
    using normal_form_entry [where s = "new_store True" and ws = ws and n = n and U = U
        and name = name and link = link]
    by simp
  have 2: "last_write_of_form U ws n = None \<and> fuzz U n = n \<longrightarrow>
      cache (Sets U (new_store True) ws) n = None"
    using normal_form_absent [where s = "new_store True" and ws = ws and n = n and U = U]
    by simp
  have 3: "list_all isASCII (map fst ws) \<or> lower_casing U \<longrightarrow> list_all (stable U) (map fst ws)"
    by (auto simp: list_all_iff stable_ASCII stable_lower_casing)
  from 1 2 3 reachable_normal_form [of U s n k] show ?thesis by blast
qed

theorem normal_form_follows_last_write_witness:
  "list_all isASCII (map fst [(''A-b'', ''x''), (''a-B'', ''y''), (''A-b'', [])]) \<and>
   list_all (stable unmapped) (map fst [(''A-b'', ''x''), (''a-B'', ''y''), (''A-b'', [])]) \<and>
   last_write_of_form unmapped [(''A-b'', ''x''), (''a-B'', ''y''), (''A-b'', [])] ''ab'' = Some (''A-b'', []) \<and>
   cache (Sets unmapped (new_store True) [(''A-b'', ''x''), (''a-B'', ''y''), (''A-b'', [])]) ''ab'' = None \<and>
   cache (Sets unmapped (new_store True) [(''A-b'', ''x''), (''a-B'', ''y''), (''A-b'', [])]) ''A-b'' = None \<and>
   list_all (stable unmapped) (map fst [(''A-b'', ''x''), (''a-B'', ''y'')]) \<and>
   last_write_of_form unmapped [(''A-b'', ''x''), (''a-B'', ''y'')] ''ab'' = Some (''a-B'', ''y'') \<and>
   cache (Sets unmapped (new_store True) [(''A-b'', ''x''), (''a-B'', ''y'')]) ''ab'' = Some ''y'' \<and>
   cache (Sets unmapped (new_store True) [(''A-b'', ''x''), (''a-B'', ''y'')]) ''a-B'' = Some ''y'' \<and>
   last_write_of_form unmapped [(''A-b'', ''x''), (''a-B'', ''y'')] ''go'' = None \<and>
   fuzz unmapped ''go'' = ''go'' \<and>
   cache (Sets unmapped (new_store True) [(''A-b'', ''x''), (''a-B'', ''y'')]) ''go'' = None \<and>
   reachable unmapped (Sets unmapped (new_store True) [(''A-b'', ''x''), (''a-B'', ''y'')]) \<and>
   fuzzy (Sets unmapped (new_store True) [(''A-b'', ''x''), (''a-B'', ''y'')]) \<and>
   list_all (stable unmapped) (order (Sets unmapped (new_store True) [(''A-b'', ''x''), (''a-B'', ''y'')])) \<and>
   find (\<lambda>k. fuzz unmapped k = ''ab'')
     (rev (order (Sets unmapped (new_store True) [(''A-b'', ''x''), (''a-B'', ''y'')]))) = Some ''a-B'' \<and>
   cache (Sets unmapped (new_store True) [(''A-b'', ''x''), (''a-B'', ''y'')]) ''ab'' =
     cache (Sets unmapped (new_store True) [(''A-b'', ''x''), (''a-B'', ''y'')]) ''a-B'' \<and>
   lower_casing (map lower) \<and>
   list_all (stable (map lower)) (map fst [(''A-b'', ''x''), (''a-B'', ''y'')])"
proof -
  let ?w3 = "[(''A-b'', ''x''), (''a-B'', ''y''), (''A-b'', [])]"
  let ?w2 = "[(''A-b'', ''x''), (''a-B'', ''y'')]"
  have a: "list_all isASCII (map fst ?w3)" by simp
  have s3: "list_all (stable unmapped) (map fst ?w3)" and s2: "list_all (stable unmapped) (map fst ?w2)"
    by (simp_all add: stable_unmapped)
  have h1: "last_write_of_form unmapped ?w3 ''ab'' = Some (''A-b'', [])"
    by (simp add: last_write_of_form_def fuzz_examples)
  have h2: "last_write_of_form unmapped ?w2 ''ab'' = Some (''a-B'', ''y'')"
    by (simp add: last_write_of_form_def fuzz_examples)
  have g: "fuzz unmapped ''go'' = ''go''"
    by (rule fuzz_eval, code_simp, code_simp)
  have h3: "last_write_of_form unmapped ?w2 ''go'' = None"
    by (simp add: last_write_of_form_def fuzz_examples)
  have r: "reachable unmapped (Sets unmapped (new_store True) ?w2)"
    by (rule reachable_Sets)
  have f: "fuzzy (Sets unmapped (new_store True) ?w2)"
    by (simp del: Sets.simps)
  have so: "list_all (stable unmapped) (order (Sets unmapped (new_store True) ?w2))"
    by (simp add: Sets_new_order stable_unmapped del: Sets.simps)
  have k: "find (\<lambda>k. fuzz unmapped k = ''ab'')
      (rev (order (Sets unmapped (new_store True) ?w2))) = Some ''a-B''"
    by (simp add: Sets_new_order fuzz_examples del: Sets.simps)
  note t1 = normal_form_follows_last_write
    [where U = unmapped and ws = ?w3 and n = "''ab''" and name = "''A-b''" and link = "[]"]
  note t2 = normal_form_follows_last_write
    [where U = unmapped and ws = ?w2 and n = "''ab''" and name = "''a-B''" and link = "''y''"
       and s = "Sets unmapped (new_store True) ?w2" and k = "''a-B''"]
  note t3 = normal_form_follows_last_write
    [where U = unmapped and ws = ?w2 and n = "''go''"]
  from h1 s3 t1
  have 1: "cache (Sets unmapped (new_store True) ?w3) ''ab'' = None \<and>
           cache (Sets unmapped (new_store True) ?w3) ''A-b'' = None"
    by simp
  from h2 s2 t2
  have 2: "cache (Sets unmapped (new_store True) ?w2) ''ab'' = Some ''y'' \<and>
           cache (Sets unmapped (new_store True) ?w2) ''a-B'' = Some ''y''"
    by simp
  from r f so k t2
  have 3: "cache (Sets unmapped (new_store True) ?w2) ''ab'' =
           cache (Sets unmapped (new_store True) ?w2) ''a-B''"
    by blast
  from h3 g t3
  have 4: "cache (Sets unmapped (new_store True) ?w2) ''go'' = None"
    by blast
  note t4 = normal_form_follows_last_write [where U = "map lower" and ws = ?w2]
  from t4 lower_casing_map_lower
  have 5: "list_all (stable (map lower)) (map fst ?w2)"
    by blast
  from a s3 s2 h1 h2 h3 g r f so k 1 2 3 4 5 lower_casing_map_lower show ?thesis by blast
qed

subsection \<open>The live entries, written again\<close>

lemma Dump_log_of: "Dump U s = log_of (rev (visited U s))"
  by (simp add: Dump_eq log_of_def rev_map)

lemma map_of_map_filter:
  "map_of (List.map_filter (\<lambda>k. map_option (Pair k) (g k)) ks) name =
     (if name \<in> set ks then g name else None)"
  by (induction ks) (auto split: option.splits)

lemma map_of_iterate_spec: "map_of (iterate_spec ws) = index_spec ws"
proof
  fix name
  show "map_of (iterate_spec ws) name = index_spec ws name"
  proof (cases "index_spec ws name")
    case None
    then show ?thesis by (simp add: iterate_spec_def map_of_map_filter)
  next
    case (Some link)
    then have "name \<in> set (map fst ws)" by (intro index_spec_written) simp
    then show ?thesis by (simp add: iterate_spec_def map_of_map_filter)
  qed
qed

lemma index_spec_not_empty: "index_spec ws name \<noteq> Some []"
  by (simp add: index_spec_def split: option.splits)

lemma index_spec_compacted: "index_spec (rev (iterate_spec ws)) = index_spec ws"
proof
  fix name
  have "last_link (rev (iterate_spec ws)) name = index_spec ws name"
    by (simp add: last_link_def map_of_iterate_spec)
  then show "index_spec (rev (iterate_spec ws)) name = index_spec ws name"
    using index_spec_not_empty [of ws name]
    by (simp add: index_spec_def [of "rev (iterate_spec ws)"] split: option.splits)
qed

subsection \<open>Fuzzy stores whose written names keep their normal forms apart\<close>

lemma forms_apart_snoc: "forms_apart U (ks @ [k]) \<Longrightarrow> forms_apart U ks"
  by (simp add: forms_apart_def)

lemma forms_apartD:
  "forms_apart U ks \<Longrightarrow> k \<in> set ks \<Longrightarrow> k' \<in> set ks \<Longrightarrow> k \<noteq> k' \<Longrightarrow>
   fuzz U k \<noteq> fuzz U k' \<and> fuzz U k \<noteq> k'"
  unfolding forms_apart_def by blast

lemma forms_apart_stable:
  assumes "inj_on (fuzz U) (set ks)" "list_all (stable U) ks"
  shows "forms_apart U ks"
  unfolding forms_apart_def
proof (intro ballI impI)
  fix k k' assume k: "k \<in> set ks" "k' \<in> set ks" "k \<noteq> k'"
  with assms(1) have ne: "fuzz U k \<noteq> fuzz U k'" by (auto dest: inj_onD)
  from k assms(2) have "fuzz U (fuzz U k) = fuzz U k" by (auto simp: list_all_iff stable_def)
  with ne have "fuzz U k \<noteq> k'" by auto
  with ne show "fuzz U k \<noteq> fuzz U k' \<and> fuzz U k \<noteq> k'" by simp
qed

lemma cache_Sets_apart:
  assumes "forms_apart U (map fst ws)"
  shows "(\<forall>k \<in> set (map fst ws). cache (Sets U (new_store True) ws) k = index_spec ws k \<and>
                                  cache (Sets U (new_store True) ws) (fuzz U k) = index_spec ws k) \<and>
         (\<forall>x. x \<notin> set (map fst ws) \<and> x \<notin> fuzz U ` set (map fst ws) \<longrightarrow>
              cache (Sets U (new_store True) ws) x = None)"
  using assms
proof (induction ws rule: rev_induct)
  case Nil
  show ?case by simp
next
  case (snoc w ws)
  obtain k l where w: "w = (k, l)" by (cases w)
  let ?c = "cache (Sets U (new_store True) ws)"
  let ?v = "if l = [] then None else Some l"
  have c: "cache (Sets U (new_store True) (ws @ [(k, l)])) = ?c(k := ?v, fuzz U k := ?v)"
    by (simp add: cache_Sets_snoc)
  from snoc.prems have ap: "forms_apart U (map fst ws @ [k])"
    by (simp add: w)
  then have "forms_apart U (map fst ws)" by (rule forms_apart_snoc)
  with snoc.IH have IH1: "\<And>k'. k' \<in> set (map fst ws) \<Longrightarrow> ?c k' = index_spec ws k' \<and> ?c (fuzz U k') = index_spec ws k'"
    and IH2: "\<And>x. x \<notin> set (map fst ws) \<Longrightarrow> x \<notin> fuzz U ` set (map fst ws) \<Longrightarrow> ?c x = None"
    by blast+
  have other: "k' \<noteq> fuzz U k \<and> fuzz U k' \<noteq> fuzz U k \<and> fuzz U k' \<noteq> k"
    if "k' \<in> set (map fst ws)" "k' \<noteq> k" for k'
  proof -
    from that have in1: "k' \<in> set (map fst ws @ [k])" and in2: "k \<in> set (map fst ws @ [k])"
      by simp_all
    from that(2) have ne: "k \<noteq> k'" by auto
    from forms_apartD [OF ap in1 in2 that(2)] forms_apartD [OF ap in2 in1 ne]
    show ?thesis by auto
  qed
  have a: "cache (Sets U (new_store True) (ws @ [(k, l)])) k' = index_spec (ws @ [(k, l)]) k' \<and>
           cache (Sets U (new_store True) (ws @ [(k, l)])) (fuzz U k') = index_spec (ws @ [(k, l)]) k'"
    if "k' \<in> set (map fst (ws @ [(k, l)]))" for k'
  proof (cases "k' = k")
    case True
    then show ?thesis by (simp add: c index_spec_snoc)
  next
    case False
    with that have "k' \<in> set (map fst ws)" by simp
    with False other [of k'] IH1 [of k'] show ?thesis
      by (simp add: c index_spec_snoc)
  qed
  have b: "cache (Sets U (new_store True) (ws @ [(k, l)])) x = None"
    if "x \<notin> set (map fst (ws @ [(k, l)]))" "x \<notin> fuzz U ` set (map fst (ws @ [(k, l)]))" for x
  proof -
    from that have "x \<noteq> k" "x \<noteq> fuzz U k" "x \<notin> set (map fst ws)" "x \<notin> fuzz U ` set (map fst ws)"
      by auto
    with IH2 [of x] show ?thesis by (simp add: c)
  qed
  from a b show ?case unfolding w by blast
qed

lemma get_apart:
  assumes "forms_apart U (map fst ws)" "k \<in> set (map fst ws)"
  shows "get U (Sets U (new_store True) ws) k = lookup (index_spec ws) k"
proof -
  from cache_Sets_apart [OF assms(1)] assms(2)
  have "cache (Sets U (new_store True) ws) k = index_spec ws k"
    and "cache (Sets U (new_store True) ws) (fuzz U k) = index_spec ws k" by blast+
  then show ?thesis
    using index_spec_not_empty [of ws k]
    by (simp add: get_def lookup_def split: option.splits)
qed

lemma get_written:
  assumes "fz \<longrightarrow> forms_apart U (map fst ws)" "k \<in> set (map fst ws)"
  shows "get U (Sets U (new_store fz) ws) k = lookup (index_spec ws) k"
proof (cases fz)
  case True
  with assms get_apart [of U ws k] show ?thesis by simp
next
  case False
  then show ?thesis by (simp add: get_plain cache_Sets_plain)
qed

lemma visited_spec:
  assumes "fz \<longrightarrow> forms_apart U (map fst ws)"
  shows "visited U (Sets U (new_store fz) ws) = iterate_spec ws"
proof -
  let ?s = "Sets U (new_store fz) ws"
  have g: "get U ?s k = lookup (index_spec ws) k" if "k \<in> set (map fst ws)" for k
    using get_written [OF assms that] .
  have "map (\<lambda>name. (name, fst (lookup (index_spec ws) name)))
          (filter (\<lambda>name. snd (lookup (index_spec ws) name)) ks) =
        List.map_filter (\<lambda>name. map_option (Pair name) (index_spec ws name)) ks" for ks
    by (induction ks) (auto simp: lookup_def split: option.splits)
  moreover have "map (\<lambda>name. (name, fst (get U ?s name)))
          (filter (\<lambda>name. snd (get U ?s name)) (rev (remdups (map fst ws)))) =
        map (\<lambda>name. (name, fst (lookup (index_spec ws) name)))
          (filter (\<lambda>name. snd (lookup (index_spec ws) name)) (rev (remdups (map fst ws))))"
    using g by (intro map_cong filter_cong) auto
  ultimately show ?thesis
    by (simp add: visited_eq Sets_new_order iterate_spec_def)
qed

subsection \<open>Iterate on reachable stores\<close>

text \<open>
  Claim C2, as stated, fails in fuzzy mode. With \<open>a = "a-b"\<close> and \<open>b = "ab"\<close>, the
  normal form of \<open>a\<close> is the name \<open>b\<close>: the third write \<open>Set(a, z)\<close> overwrites the entry
  of \<open>b\<close>, the tombstone \<open>Set(a, "")\<close> deletes it, and a name whose last write is a
  tombstone is visited again when its normal form is written later.
\<close>

theorem Iterate_visits_counterexample:
  "visited unmapped (Sets unmapped (new_store True) [(''a-b'', ''x''), (''ab'', ''y''), (''a-b'', ''z'')]) =
     [(''a-b'', ''z''), (''ab'', ''z'')] \<and>
   visited unmapped (Sets unmapped (new_store True) [(''a-b'', ''x''), (''ab'', ''y''), (''a-b'', ''z'')]) \<noteq>
     [(''a-b'', ''z''), (''ab'', ''y'')] \<and>
   visited unmapped (Sets unmapped (new_store True) [(''a-b'', ''x''), (''ab'', ''y''), (''a-b'', [])]) = [] \<and>
   visited unmapped (Sets unmapped (new_store True) [(''a-b'', ''x''), (''ab'', ''y''), (''a-b'', [])]) \<noteq>
     [(''ab'', ''y'')] \<and>
   visited unmapped (Sets unmapped (new_store True) [(''a-b'', ''x''), (''a-b'', []), (''ab'', ''y'')]) =
     [(''ab'', ''y''), (''a-b'', ''y'')]"
  by (simp add: visited_eq Set_Ok get_def lookup_def cache_set' fuzz_examples)

text \<open>
  Claim C2, amended. On every reachable store \<open>Iterate\<close> visits each written name for
  which \<open>Get\<close> finds a link, once, the most recently written first, with the link \<open>Get\<close>
  returns (\<open>remdups\<close> keeps the last occurrence of each name in \<open>order\<close>, so
  \<open>rev (remdups (order s))\<close> lists the names by their last write, the latest first).
  Without fuzzy mode these are exactly the live names, the names with an entry in the
  index. After the writes \<open>ws\<close> to a new store, without fuzzy mode, or in fuzzy mode when
  the written names keep their normal forms apart, the visits are the live names with
  their latest links (\<open>iterate_spec\<close>); stable names, such as ASCII names, keep their
  normal forms apart when no two of them share one. For \<open>a \<noteq> b\<close>, non-empty \<open>y\<close> and
  \<open>z\<close> and, in fuzzy mode, \<open>b\<close> not the normal form of \<open>a\<close>, the writes
  \<open>(a,x), (b,y), (a,z)\<close> yield \<open>[(a,z), (b,y)]\<close> and the writes \<open>(a,x), (b,y), (a,"")\<close>
  yield \<open>[(b,y)]\<close>.
\<close>

theorem Iterate_visits:
  "(reachable U s \<longrightarrow>
      map fst (visited U s) = filter (\<lambda>name. snd (Get U s name)) (rev (remdups (order s))) \<and>
      distinct (map fst (visited U s)) \<and>
      (\<forall>(name, link) \<in> set (visited U s). Get U s name = (link, True)) \<and>
      (\<not> fuzzy s \<longrightarrow> set (map fst (visited U s)) = {name. snd (Get U s name)} \<and>
                     set (map fst (visited U s)) = dom (cache s))) \<and>
   ((fz \<longrightarrow> forms_apart U (map fst ws)) \<longrightarrow>
      visited U (Sets U (new_store fz) ws) = iterate_spec ws) \<and>
   (inj_on (fuzz U) (set (map fst ws)) \<and> list_all (stable U) (map fst ws) \<longrightarrow>
      forms_apart U (map fst ws)) \<and>
   distinct (map fst (iterate_spec ws)) \<and>
   set (map fst (iterate_spec ws)) = {name. index_spec ws name \<noteq> None} \<and>
   (a \<noteq> b \<and> (fz \<longrightarrow> b \<noteq> fuzz U a) \<and> y \<noteq> [] \<and> z \<noteq> [] \<longrightarrow>
      visited U (Sets U (new_store fz) [(a, x), (b, y), (a, z)]) = [(a, z), (b, y)]) \<and>
   (a \<noteq> b \<and> (fz \<longrightarrow> b \<noteq> fuzz U a) \<and> y \<noteq> [] \<longrightarrow>
      visited U (Sets U (new_store fz) [(a, x), (b, y), (a, [])]) = [(b, y)])"
proof -
  have "distinct (map fst (iterate_spec ws))"
    by (simp add: keys_iterate_spec)
  moreover have "reachable U s \<longrightarrow>
      map fst (visited U s) = filter (\<lambda>name. snd (Get U s name)) (rev (remdups (order s))) \<and>
      distinct (map fst (visited U s)) \<and>
      (\<forall>(name, link) \<in> set (visited U s). Get U s name = (link, True)) \<and>
      (\<not> fuzzy s \<longrightarrow> set (map fst (visited U s)) = {name. snd (Get U s name)} \<and>
                     set (map fst (visited U s)) = dom (cache s))"
    using reachable_visited [of U s] reachable_plain_visited [of U s] by blast
  ultimately show ?thesis
    using visited_spec [of fz U ws] live_keys_iterate_spec [of ws]
      forms_apart_stable [of U "map fst ws"]
      three_writes [of a b fz U y z x] tombstone_excluded [of a b fz U y x]
    by blast
qed

theorem Iterate_visits_witness:
  "reachable unmapped (Sets unmapped (new_store False) [(''a'', ''X''), (''b'', ''Y''), (''a'', ''Z'')]) \<and>
   \<not> fuzzy (Sets unmapped (new_store False) [(''a'', ''X''), (''b'', ''Y''), (''a'', ''Z'')]) \<and>
   ''a'' \<noteq> ''b'' \<and> ''Y'' \<noteq> [] \<and> ''Z'' \<noteq> [] \<and>
   visited unmapped (Sets unmapped (new_store False) [(''a'', ''X''), (''b'', ''Y''), (''a'', ''Z'')]) =
     [(''a'', ''Z''), (''b'', ''Y'')] \<and>
   visited unmapped (Sets unmapped (new_store False) [(''a'', ''X''), (''b'', ''Y''), (''a'', [])]) =
     [(''b'', ''Y'')] \<and>
   iterate_spec [(''a'', ''X''), (''b'', ''Y''), (''a'', ''Z'')] = [(''a'', ''Z''), (''b'', ''Y'')] \<and>
   set (map fst (visited unmapped (Sets unmapped (new_store False) [(''a'', ''X''), (''b'', ''Y''), (''a'', ''Z'')]))) =
     dom (cache (Sets unmapped (new_store False) [(''a'', ''X''), (''b'', ''Y''), (''a'', ''Z'')])) \<and>
   inj_on (fuzz unmapped) (set (map fst [(''Go-Links'', ''X''), (''b'', ''Y''), (''Go-Links'', [])])) \<and>
   list_all (stable unmapped) (map fst [(''Go-Links'', ''X''), (''b'', ''Y''), (''Go-Links'', [])]) \<and>
   forms_apart unmapped (map fst [(''Go-Links'', ''X''), (''b'', ''Y''), (''Go-Links'', [])]) \<and>
   ''b'' \<noteq> fuzz unmapped ''Go-Links'' \<and>
   visited unmapped (Sets unmapped (new_store True) [(''Go-Links'', ''X''), (''b'', ''Y''), (''Go-Links'', [])]) =
     iterate_spec [(''Go-Links'', ''X''), (''b'', ''Y''), (''Go-Links'', [])] \<and>
   visited unmapped (Sets unmapped (new_store True) [(''Go-Links'', ''X''), (''b'', ''Y''), (''Go-Links'', [])]) =
     [(''b'', ''Y'')]"
proof -
  let ?w = "[(''a'', ''X''), (''b'', ''Y''), (''a'', ''Z'')]"
  let ?g = "[(''Go-Links'', ''X''), (''b'', ''Y''), (''Go-Links'', [])]"
  have h: "''a'' \<noteq> ''b''" "''Y'' \<noteq> []" "''Z'' \<noteq> []" by simp_all
  have r: "reachable unmapped (Sets unmapped (new_store False) ?w)"
    by (rule reachable_Sets)
  have f: "\<not> fuzzy (Sets unmapped (new_store False) ?w)"
    by (simp del: Sets.simps)
  note t = Iterate_visits [where U = unmapped and fz = False and ws = ?w
      and s = "Sets unmapped (new_store False) ?w"
      and a = "''a''" and b = "''b''" and x = "''X''" and y = "''Y''" and z = "''Z''"]
  from t h have 1: "visited unmapped (Sets unmapped (new_store False) ?w) = [(''a'', ''Z''), (''b'', ''Y'')]"
    by blast
  from t h have 2: "visited unmapped (Sets unmapped (new_store False) [(''a'', ''X''), (''b'', ''Y''), (''a'', [])]) =
      [(''b'', ''Y'')]"
    by blast
  from t have 3: "visited unmapped (Sets unmapped (new_store False) ?w) = iterate_spec ?w"
    by blast
  from t r f have 4: "set (map fst (visited unmapped (Sets unmapped (new_store False) ?w))) =
     dom (cache (Sets unmapped (new_store False) ?w))"
    by blast
  have i: "inj_on (fuzz unmapped) (set (map fst ?g))"
    by (auto simp: inj_on_def fuzz_examples)
  have st: "list_all (stable unmapped) (map fst ?g)"
    by (simp add: stable_unmapped)
  have n: "''b'' \<noteq> fuzz unmapped ''Go-Links''" "''Go-Links'' \<noteq> ''b''" by (simp_all add: fuzz_examples)
  note u = Iterate_visits [where U = unmapped and fz = True and ws = ?g
      and a = "''Go-Links''" and b = "''b''" and x = "''X''" and y = "''Y''"]
  from u i st have ap: "forms_apart unmapped (map fst ?g)" by blast
  from u ap have 5: "visited unmapped (Sets unmapped (new_store True) ?g) = iterate_spec ?g"
    by blast
  from u n h have 6: "visited unmapped (Sets unmapped (new_store True) ?g) = [(''b'', ''Y'')]"
    by blast
  from 1 3 have 7: "iterate_spec ?w = [(''a'', ''Z''), (''b'', ''Y'')]" by simp
  from h r f 1 2 7 4 5 6 i st ap n show ?thesis by blast
qed

subsection \<open>Dump\<close>

lemma scan_Dump:
  assumes "list_all (\<lambda>(name, link). clean name link) (visited U s)"
  shows "scan (Dump U s) = map (\<lambda>(name, link). name @ CHR '' '' # link) (rev (visited U s))"
proof -
  from assms have "list_all (\<lambda>(name, link). clean name link) (rev (visited U s))" by simp
  from scan_log_of [OF clean_no_newline [OF this], of "[]"] show ?thesis
    by (simp add: Dump_log_of)
qed

lemma reachable_live_count:
  assumes "reachable U s"
  shows "set (map fst (visited U s)) = {name \<in> set (order s). snd (Get U s name)}"
    and "length (visited U s) = card {name \<in> set (order s). snd (Get U s name)}"
proof -
  show k: "set (map fst (visited U s)) = {name \<in> set (order s). snd (Get U s name)}"
    by (auto simp: reachable_visited(1) [OF assms])
  have "card (set (map fst (visited U s))) = length (map fst (visited U s))"
    by (rule distinct_card) (rule reachable_visited(2) [OF assms])
  with k show "length (visited U s) = card {name \<in> set (order s). snd (Get U s name)}" by simp
qed

text \<open>Opening a dump replays the visited entries, the last visited first.\<close>

lemma Dump_reopen:
  assumes "list_all (\<lambda>(name, link). clean name link) (visited U (Sets U (new_store fz) ws))"
  shows "Open U filename (Dump U (Sets U (new_store fz) ws)) [fz] =
           Inr (Sets U (new_store fz) (rev (visited U (Sets U (new_store fz) ws))))"
proof -
  let ?ds = "rev (visited U (Sets U (new_store fz) ws))"
  from assms have cd: "list_all (\<lambda>(name, link). clean name link) ?ds" by simp
  have d: "Dump U (Sets U (new_store fz) ws) = file' (Sets U (new_store fz) ?ds)"
    by (simp add: Dump_log_of file'_Sets)
  show ?thesis unfolding d by (rule reopen_clean [OF cd])
qed

lemma cache_compacted_plain:
  "cache (Sets U (new_store False) (rev (visited U (Sets U (new_store False) ws)))) =
   cache (Sets U (new_store False) ws)"
  by (simp add: visited_plain cache_Sets_plain index_spec_compacted)

subsection \<open>The dump of a fuzzy store\<close>

lemma find_filter: "find P (filter Q xs) = find (\<lambda>x. Q x \<and> P x) xs"
  by (induction xs) auto

lemma find_map_pair:
  "find (\<lambda>(a, b). P a) (map (\<lambda>k. (k, g k)) xs) = map_option (\<lambda>k. (k, g k)) (find P xs)"
  by (induction xs) auto

lemma find_conj_Some: "find P xs = Some x \<Longrightarrow> Q x \<Longrightarrow> find (\<lambda>y. Q y \<and> P y) xs = Some x"
  by (induction xs) (auto split: if_splits)

lemma find_skip: "\<not> P x \<Longrightarrow> find P (filter (\<lambda>y. y \<noteq> x) ys) = find P ys"
  by (induction ys) auto

lemma find_remdups: "find P (rev (remdups xs)) = find P (rev xs)"
proof (induction xs rule: rev_induct)
  case Nil
  show ?case by simp
next
  case (snoc x xs)
  show ?case
  proof (cases "P x")
    case True
    then show ?thesis by (simp add: remdups_snoc)
  next
    case False
    then show ?thesis
      by (simp add: remdups_snoc rev_filter find_skip snoc.IH)
  qed
qed

lemma map_of_graph:
  "map_of (map (\<lambda>k. (k, g k)) ks) x = (if x \<in> set ks then Some (g x) else None)"
  by (induction ks) auto

lemma get_fuzzy:
  assumes "no_empty_link s" "fuzzy s"
  shows "get U s x = (case cache s x of None \<Rightarrow> lookup (cache s) (fuzz U x) | Some l \<Rightarrow> (l, True))"
  using assms by (auto simp: get_def lookup_def no_empty_link_def split: option.splits)

lemma get_found_not_empty:
  assumes "no_empty_link s" "snd (get U s x)"
  shows "fst (get U s x) \<noteq> []"
  using assms by (auto simp: get_def lookup_def no_empty_link_def split: option.splits if_splits)

lemma last_write_visited:
  "last_write_of_form U (rev (visited U s)) n =
     map_option (\<lambda>k. (k, fst (get U s k)))
       (find (\<lambda>k. snd (get U s k) \<and> fuzz U k = n) (rev (remdups (order s))))"
  by (simp add: last_write_of_form_def visited_eq find_map_pair find_filter)

lemma exact_entry:
  assumes st: "list_all (stable U) (map fst ws)" and x: "fuzz U x \<noteq> x"
  shows "cache (Sets U (new_store True) ws) x = index_spec ws x"
  using st
proof (induction ws rule: rev_induct)
  case Nil
  show ?case by (simp add: index_spec_def last_link_def)
next
  case (snoc w ws)
  obtain k l where w: "w = (k, l)" by (cases w)
  from snoc.prems have "stable U k" and sw: "list_all (stable U) (map fst ws)"
    by (simp_all add: w)
  then have sk: "fuzz U (fuzz U k) = fuzz U k" by (simp add: stable_def)
  with x have "fuzz U k \<noteq> x" by auto
  then show ?case
    by (simp add: w cache_Sets_snoc index_spec_snoc snoc.IH [OF sw])
qed

lemma visited_names: "set (map fst (visited U s)) \<subseteq> set (order s)"
  by (auto simp: visited_eq)

lemma stable_visited:
  assumes "list_all (stable U) (order s)"
  shows "list_all (stable U) (map fst (rev (visited U s)))"
  unfolding list_all_iff
proof
  fix k assume "k \<in> set (map fst (rev (visited U s)))"
  then have "k \<in> set (order s)" using visited_names [of U s] by auto
  with assms show "stable U k" by (simp add: list_all_iff)
qed

lemma form_compacted:
  assumes st: "list_all (stable U) (map fst ws)"
    and lf: "live_forms U (Sets U (new_store True) ws)"
    and n: "fuzz U n = n"
  shows "cache (Sets U (new_store True) (rev (visited U (Sets U (new_store True) ws)))) n =
         cache (Sets U (new_store True) ws) n"
proof -
  let ?S = "Sets U (new_store True) ws"
  let ?ds = "rev (visited U ?S)"
  let ?T = "Sets U (new_store True) ?ds"
  let ?R = "rev (remdups (map fst ws))"
  have o: "order ?S = map fst ws" by (rule Sets_new_order)
  have ne: "no_empty_link ?S" by (simp add: no_empty_Sets)
  have fz: "fuzzy ?S" by simp
  have sd: "list_all (stable U) (map fst ?ds)"
    using st by (intro stable_visited) (simp add: o)
  have lwd: "last_write_of_form U ?ds n =
      map_option (\<lambda>k. (k, fst (get U ?S k))) (find (\<lambda>k. snd (get U ?S k) \<and> fuzz U k = n) ?R)"
    by (simp add: last_write_visited o)
  show ?thesis
  proof (cases "last_write_of_form U ws n")
    case None
    then have "\<forall>k \<in> set (map fst ws). fuzz U k \<noteq> n"
      by (auto simp: last_write_of_form_def find_None_iff)
    then have "find (\<lambda>k. snd (get U ?S k) \<and> fuzz U k = n) ?R = None"
      by (auto simp: find_None_iff)
    then have "last_write_of_form U ?ds n = None" by (simp add: lwd)
    then have "cache ?T n = None" by (intro normal_form_absent n) simp_all
    moreover from None have "cache ?S n = None" by (intro normal_form_absent n) simp_all
    ultimately show ?thesis by simp
  next
    case (Some p)
    obtain k l where p: "p = (k, l)" by (cases p)
    from Some p have lw: "last_write_of_form U ws n = Some (k, l)" by simp
    from normal_form_entry [OF _ _ st lw, of "new_store True"]
    have cn: "cache ?S n = (if l = [] then None else Some l)" and ck: "cache ?S k = cache ?S n"
      by simp_all
    from lw have fk: "fuzz U k = n" by (rule last_write_form)
    from lw have "find (\<lambda>k. fuzz U k = n) (rev (map fst ws)) = Some k"
      by (simp add: last_write_of_form_def rev_map find_map_fst)
    then have fR: "find (\<lambda>k. fuzz U k = n) ?R = Some k" by (simp add: find_remdups)
    show ?thesis
    proof (cases "l = []")
      case False
      with cn ck have "cache ?S k = Some l" by simp
      then have g: "get U ?S k = (l, True)" by (simp add: get_fuzzy [OF ne fz])
      then have "snd (get U ?S k)" by simp
      with fR have "find (\<lambda>k. snd (get U ?S k) \<and> fuzz U k = n) ?R = Some k"
        by (rule find_conj_Some)
      with g have "last_write_of_form U ?ds n = Some (k, l)" by (simp add: lwd)
      from normal_form_entry [OF _ _ sd this, of "new_store True"] False
      have "cache ?T n = Some l" by simp
      with cn False show ?thesis by simp
    next
      case True
      with cn have none: "cache ?S n = None" by simp
      have "\<not> (snd (get U ?S k') \<and> fuzz U k' = n)" if "k' \<in> set (map fst ws)" for k'
      proof
        assume a: "snd (get U ?S k') \<and> fuzz U k' = n"
        show False
        proof (cases "cache ?S k'")
          case None
          with a none show False by (auto simp: get_fuzzy [OF ne fz] lookup_def)
        next
          case (Some l')
          with lf that have "cache ?S (fuzz U k') \<noteq> None"
            by (auto simp: live_forms_def o)
          with a none show False by simp
        qed
      qed
      then have "find (\<lambda>k. snd (get U ?S k) \<and> fuzz U k = n) ?R = None"
        by (auto simp: find_None_iff)
      then have "last_write_of_form U ?ds n = None" by (simp add: lwd)
      then have "cache ?T n = None" by (intro normal_form_absent n) simp_all
      with none show ?thesis by simp
    qed
  qed
qed

lemma get_compacted:
  assumes st: "list_all (stable U) (map fst ws)"
    and lf: "live_forms U (Sets U (new_store True) ws)"
    and sx: "stable U x"
  shows "get U (Sets U (new_store True) (rev (visited U (Sets U (new_store True) ws)))) x =
         get U (Sets U (new_store True) ws) x"
proof -
  let ?S = "Sets U (new_store True) ws"
  let ?ds = "rev (visited U ?S)"
  let ?T = "Sets U (new_store True) ?ds"
  let ?n = "fuzz U x"
  have o: "order ?S = map fst ws" by (rule Sets_new_order)
  have ne: "no_empty_link ?S" "no_empty_link ?T" by (simp_all add: no_empty_Sets)
  have fz: "fuzzy ?S" "fuzzy ?T" by simp_all
  have sd: "list_all (stable U) (map fst ?ds)"
    using st by (intro stable_visited) (simp add: o)
  from sx have n: "fuzz U ?n = ?n" by (simp add: stable_def)
  have cn: "cache ?T ?n = cache ?S ?n" by (rule form_compacted [OF st lf n])
  note gS = get_fuzzy [OF ne(1) fz(1), of U x] and gT = get_fuzzy [OF ne(2) fz(2), of U x]
  show ?thesis
  proof (cases "fuzz U x = x")
    case True
    with cn have "cache ?T x = cache ?S x" by simp
    then show ?thesis by (simp add: gS gT True lookup_def split: option.splits)
  next
    case False
    have cS: "cache ?S x = index_spec ws x" by (rule exact_entry [OF st False])
    have "cache ?T x = index_spec ?ds x" by (rule exact_entry [OF sd False])
    also have "\<dots> = (case map_of (visited U ?S) x of None \<Rightarrow> None
                       | Some link \<Rightarrow> if link = [] then None else Some link)"
      by (simp add: index_spec_def last_link_def)
    also have "map_of (visited U ?S) x =
        (if x \<in> set (map fst ws) \<and> snd (get U ?S x) then Some (fst (get U ?S x)) else None)"
      by (simp add: visited_eq o map_of_graph)
    finally have cT: "cache ?T x =
        (if x \<in> set (map fst ws) \<and> snd (get U ?S x) then Some (fst (get U ?S x)) else None)"
      using get_found_not_empty [OF ne(1), of U x] by auto
    show ?thesis
    proof (cases "x \<in> set (map fst ws) \<and> snd (get U ?S x)")
      case True
      with cT have "get U ?T x = (fst (get U ?S x), True)" by (simp add: gT)
      with True show ?thesis by (simp add: prod_eq_iff)
    next
      case False
      with cT have "cache ?T x = None" by simp
      then have gt: "get U ?T x = lookup (cache ?S) ?n"
        by (simp add: gT cn lookup_def)
      have "cache ?S x = None"
      proof (cases "x \<in> set (map fst ws)")
        case True
        with False have "\<not> snd (get U ?S x)" by simp
        then show ?thesis by (auto simp: gS split: option.splits)
      next
        case False
        then have "index_spec ws x = None" using index_spec_written [of ws x] by blast
        then show ?thesis by (simp add: cS)
      qed
      then have "get U ?S x = lookup (cache ?S) ?n" by (simp add: gS)
      with gt show ?thesis by simp
    qed
  qed
qed

lemma Get_cong:
  assumes "fuzzy s = fuzzy t" "cache s = cache t"
  shows "Get U s name = Get U t name"
proof -
  have "get U s name = get U t name" unfolding get_def assms by (rule refl)
  then show ?thesis unfolding Get_def by simp
qed

lemma Get_of_get: "get U s name = get U t name \<Longrightarrow> Get U s name = Get U t name"
  by (simp add: Get_def)

lemma form_revived:
  assumes st: "list_all (stable U) (map fst ws)"
    and k: "k \<in> set (map fst ws)" "cache (Sets U (new_store True) ws) k \<noteq> None"
      "cache (Sets U (new_store True) ws) (fuzz U k) = None"
  shows "Get U (Sets U (new_store True) (rev (visited U (Sets U (new_store True) ws)))) (fuzz U k) \<noteq>
         Get U (Sets U (new_store True) ws) (fuzz U k)"
proof -
  let ?S = "Sets U (new_store True) ws"
  let ?ds = "rev (visited U ?S)"
  let ?T = "Sets U (new_store True) ?ds"
  let ?n = "fuzz U k"
  let ?R = "rev (remdups (map fst ws))"
  have o: "order ?S = map fst ws" by (rule Sets_new_order)
  have ne: "no_empty_link ?S" "no_empty_link ?T" by (simp_all add: no_empty_Sets)
  have fz: "fuzzy ?S" "fuzzy ?T" by simp_all
  have sd: "list_all (stable U) (map fst ?ds)"
    using st by (intro stable_visited) (simp add: o)
  from st k(1) have n: "fuzz U ?n = ?n" by (auto simp: list_all_iff stable_def)
  from k(3) have "get U ?S ?n = ([], False)"
    by (simp add: get_fuzzy [OF ne(1) fz(1)] n lookup_def)
  then have S: "Get U ?S ?n = ([], False)" by (simp add: Get_def)
  from k(2) have "snd (get U ?S k)" by (auto simp: get_fuzzy [OF ne(1) fz(1)])
  with k(1) have "find (\<lambda>k'. snd (get U ?S k') \<and> fuzz U k' = ?n) ?R \<noteq> None"
    by (auto simp: find_None_iff)
  then obtain k' where f: "find (\<lambda>k'. snd (get U ?S k') \<and> fuzz U k' = ?n) ?R = Some k'" by auto
  then have "snd (get U ?S k')" by (auto dest: find_Some_holds)
  then have l: "fst (get U ?S k') \<noteq> []" by (rule get_found_not_empty [OF ne(1)])
  from f have "last_write_of_form U ?ds ?n = Some (k', fst (get U ?S k'))"
    by (simp add: last_write_visited o)
  from normal_form_entry [OF _ _ sd this, of "new_store True"] l
  have "cache ?T ?n = Some (fst (get U ?S k'))" by simp
  then have "get U ?T ?n = (fst (get U ?S k'), True)" by (simp add: get_fuzzy [OF ne(2) fz(2)])
  with l have "Get U ?T ?n = (fst (get U ?S k'), True)" by (simp add: Get_def)
  with S show ?thesis by simp
qed

lemma live_forms_no_tombstone:
  assumes "list_all (\<lambda>(name, link). link \<noteq> []) ws"
  shows "live_forms U (Sets U (new_store True) ws)"
proof -
  have "\<forall>k \<in> set (map fst ws). cache (Sets U (new_store True) ws) (fuzz U k) \<noteq> None"
    using assms
  proof (induction ws rule: rev_induct)
    case Nil
    show ?case by simp
  next
    case (snoc w ws)
    obtain k l where w: "w = (k, l)" by (cases w)
    from snoc.prems have l: "l \<noteq> []" and ws: "list_all (\<lambda>(name, link). link \<noteq> []) ws"
      by (simp_all add: w)
    from snoc.IH [OF ws] l show ?case
      by (simp add: w cache_Sets_snoc)
  qed
  then show ?thesis by (simp add: live_forms_def Sets_new_order)
qed

lemma live_forms_apart:
  assumes "forms_apart U (map fst ws)"
  shows "live_forms U (Sets U (new_store True) ws)"
  using cache_Sets_apart [OF assms] by (simp add: live_forms_def Sets_new_order)

text \<open>
  Claim C5, as stated for every store, fails. In fuzzy mode, after \<open>Set("a-b", "x")\<close> and
  \<open>Set("ab", "")\<close> the tombstone has deleted the normal form \<open>ab\<close> and \<open>Get("ab")\<close> finds
  nothing; the dump holds the one line \<open>a-b x\<close>, and replaying it stores the normal form
  again, so \<open>Get("ab")\<close> returns \<open>x\<close> after reopening. Without fuzzy mode, a link with a
  space is dumped as it is and the dumped file cannot be opened.
\<close>

theorem Dump_then_reopen_counterexample:
  "Get unmapped (Sets unmapped (new_store True) [(''a-b'', ''x''), (''ab'', [])]) ''ab'' = ([], False) \<and>
   Dump unmapped (Sets unmapped (new_store True) [(''a-b'', ''x''), (''ab'', [])]) = ''a-b x'' @ [newline] \<and>
   map_sum id (\<lambda>s. Get unmapped s ''ab'')
     (Open unmapped ''dump'' (Dump unmapped (Sets unmapped (new_store True) [(''a-b'', ''x''), (''ab'', [])])) [True]) =
     Inr (''x'', True) \<and>
   Get unmapped (Sets unmapped (new_store False) [(''k'', ''a b'')]) ''k'' = (''a b'', True) \<and>
   map_sum id (\<lambda>s. Get unmapped s ''k'')
     (Open unmapped ''dump'' (Dump unmapped (Sets unmapped (new_store False) [(''k'', ''a b'')])) [False]) =
     Inl (InvalidLine ''dump'' ''k a b'')"
  by (simp add: Dump_log_of visited_eq log_of_def Open_plain Set_Ok record_line_def scan.simps
      newline_def cr_def dropCR_def MaxScanTokenSize_def Let_def Get_def get_def lookup_def
      cache_set' fuzz_examples)

text \<open>
  Claim C5, amended. \<open>Dump\<close> writes the lines collected by \<open>Iterate\<close> in the reverse of
  the order of collection. For every reachable store whose visited names and links are
  \<open>clean\<close>, the dumped file has exactly one line per live name (a written name for which
  \<open>Get\<close> finds a link). Opening the dumped file with the same fuzzy setting then
  succeeds. Without fuzzy mode it gives the same index, so \<open>Get\<close> returns the same result
  for every name. In fuzzy mode, with stable written names, \<open>Get\<close> returns the same
  result for every stable name when every written name with an entry of its own has an
  entry for its normal form (\<open>live_forms\<close>); when some written name has an entry and its
  normal form has none, \<open>Get\<close> of that normal form finds nothing before the dump and a
  link after reopening. After writes to a new store, \<open>live_forms\<close> holds when no write
  was a tombstone, and when the written names keep their normal forms apart.
\<close>

theorem Dump_then_reopen:
  "Dump U s = concat (rev (map (\<lambda>(name, link). record_line name link) (visited U s))) \<and>
   (reachable U s \<and> list_all (\<lambda>(name, link). clean name link) (visited U s) \<longrightarrow>
      scan (Dump U s) = map (\<lambda>(name, link). name @ CHR '' '' # link) (rev (visited U s)) \<and>
      distinct (map fst (visited U s)) \<and>
      set (map fst (visited U s)) = {name \<in> set (order s). snd (Get U s name)} \<and>
      length (scan (Dump U s)) = card {name \<in> set (order s). snd (Get U s name)} \<and>
      \<not> isl (Open U filename (Dump U s) [fuzzy s])) \<and>
   (reachable U s \<and> list_all (\<lambda>(name, link). clean name link) (visited U s) \<and> \<not> fuzzy s \<longrightarrow>
      map_sum id cache (Open U filename (Dump U s) [fuzzy s]) = Inr (cache s) \<and>
      map_sum id (\<lambda>s1. Get U s1 name) (Open U filename (Dump U s) [fuzzy s]) = Inr (Get U s name)) \<and>
   (reachable U s \<and> list_all (\<lambda>(name, link). clean name link) (visited U s) \<and> fuzzy s \<and>
    list_all (stable U) (order s) \<and> stable U name \<and> live_forms U s \<longrightarrow>
      map_sum id (\<lambda>s1. Get U s1 name) (Open U filename (Dump U s) [fuzzy s]) = Inr (Get U s name)) \<and>
   (reachable U s \<and> list_all (\<lambda>(name, link). clean name link) (visited U s) \<and> fuzzy s \<and>
    list_all (stable U) (order s) \<and> k \<in> set (order s) \<and> cache s k \<noteq> None \<and>
    cache s (fuzz U k) = None \<longrightarrow>
      Get U s (fuzz U k) = ([], False) \<and>
      map_sum id (\<lambda>s1. Get U s1 (fuzz U k)) (Open U filename (Dump U s) [fuzzy s]) \<noteq>
        Inr (Get U s (fuzz U k))) \<and>
   (list_all (\<lambda>(name, link). link \<noteq> []) ws \<or> forms_apart U (map fst ws) \<longrightarrow>
      live_forms U (Sets U (new_store True) ws))"
proof -
  have op: "\<exists>fz ws. fuzzy s = fz \<and> order s = map fst ws \<and> cache s = cache (Sets U (new_store fz) ws) \<and>
      visited U s = visited U (Sets U (new_store fz) ws) \<and>
      (\<forall>key. Get U s key = Get U (Sets U (new_store fz) ws) key) \<and>
      Open U filename (Dump U s) [fuzzy s] =
        Inr (Sets U (new_store fz) (rev (visited U (Sets U (new_store fz) ws))))"
    if r: "reachable U s" and c: "list_all (\<lambda>(name, link). clean name link) (visited U s)"
  proof -
    from reachable_history [OF r] obtain fz ws f
      where s: "s = (Sets U (new_store fz) ws)\<lparr>file' := f\<rparr>" by blast
    have v: "visited U s = visited U (Sets U (new_store fz) ws)" by (simp add: s)
    from c have "list_all (\<lambda>(name, link). clean name link) (visited U (Sets U (new_store fz) ws))"
      by (simp only: v)
    from Dump_reopen [OF this, of filename]
    have "Open U filename (Dump U s) [fuzzy s] =
        Inr (Sets U (new_store fz) (rev (visited U (Sets U (new_store fz) ws))))"
      by (simp add: s)
    moreover have "fuzzy s = fz" "order s = map fst ws" "cache s = cache (Sets U (new_store fz) ws)"
      "\<forall>key. Get U s key = Get U (Sets U (new_store fz) ws) key"
      by (simp_all add: s Sets_new_order)
    ultimately show ?thesis using v by blast
  qed
  have 1: "scan (Dump U s) = map (\<lambda>(name, link). name @ CHR '' '' # link) (rev (visited U s)) \<and>
      distinct (map fst (visited U s)) \<and>
      set (map fst (visited U s)) = {name \<in> set (order s). snd (Get U s name)} \<and>
      length (scan (Dump U s)) = card {name \<in> set (order s). snd (Get U s name)} \<and>
      \<not> isl (Open U filename (Dump U s) [fuzzy s])"
    if r: "reachable U s" and c: "list_all (\<lambda>(name, link). clean name link) (visited U s)"
  proof -
    from op [OF r c] have "\<not> isl (Open U filename (Dump U s) [fuzzy s])" by auto
    then show ?thesis
      using scan_Dump [OF c] reachable_visited(2) [OF r] reachable_live_count [OF r] by simp
  qed
  have 2: "map_sum id cache (Open U filename (Dump U s) [fuzzy s]) = Inr (cache s) \<and>
      map_sum id (\<lambda>s1. Get U s1 name) (Open U filename (Dump U s) [fuzzy s]) = Inr (Get U s name)"
    if r: "reachable U s" and c: "list_all (\<lambda>(name, link). clean name link) (visited U s)"
      and nf: "\<not> fuzzy s"
  proof -
    from op [OF r c] nf obtain ws
      where ca: "cache s = cache (Sets U (new_store False) ws)"
        and o: "Open U filename (Dump U s) [fuzzy s] =
          Inr (Sets U (new_store False) (rev (visited U (Sets U (new_store False) ws))))"
      by auto
    let ?T = "Sets U (new_store False) (rev (visited U (Sets U (new_store False) ws)))"
    have ct: "cache ?T = cache s" by (simp only: ca cache_compacted_plain)
    then have "Get U ?T name = Get U s name" by (intro Get_cong) (simp_all add: nf)
    with ct show ?thesis by (simp add: o)
  qed
  have 3: "map_sum id (\<lambda>s1. Get U s1 name) (Open U filename (Dump U s) [fuzzy s]) = Inr (Get U s name)"
    if r: "reachable U s" and c: "list_all (\<lambda>(name, link). clean name link) (visited U s)"
      and f: "fuzzy s" and st: "list_all (stable U) (order s)" and sn: "stable U name"
      and lf: "live_forms U s"
  proof -
    from op [OF r c] f obtain ws
      where ca: "cache s = cache (Sets U (new_store True) ws)" and os: "order s = map fst ws"
        and g: "\<forall>key. Get U s key = Get U (Sets U (new_store True) ws) key"
        and o: "Open U filename (Dump U s) [fuzzy s] =
          Inr (Sets U (new_store True) (rev (visited U (Sets U (new_store True) ws))))"
      by auto
    from st have st': "list_all (stable U) (map fst ws)" by (simp only: os)
    from lf have lf': "live_forms U (Sets U (new_store True) ws)"
      by (simp add: live_forms_def ca os Sets_new_order)
    from get_compacted [OF st' lf' sn]
    have "Get U (Sets U (new_store True) (rev (visited U (Sets U (new_store True) ws)))) name =
          Get U (Sets U (new_store True) ws) name"
      by (rule Get_of_get)
    with g show ?thesis by (simp add: o)
  qed
  have 4: "Get U s (fuzz U k) = ([], False) \<and>
      map_sum id (\<lambda>s1. Get U s1 (fuzz U k)) (Open U filename (Dump U s) [fuzzy s]) \<noteq>
        Inr (Get U s (fuzz U k))"
    if r: "reachable U s" and c: "list_all (\<lambda>(name, link). clean name link) (visited U s)"
      and f: "fuzzy s" and st: "list_all (stable U) (order s)"
      and k: "k \<in> set (order s)" "cache s k \<noteq> None" "cache s (fuzz U k) = None"
  proof -
    from op [OF r c] f obtain ws
      where ca: "cache s = cache (Sets U (new_store True) ws)" and os: "order s = map fst ws"
        and g: "\<forall>key. Get U s key = Get U (Sets U (new_store True) ws) key"
        and o: "Open U filename (Dump U s) [fuzzy s] =
          Inr (Sets U (new_store True) (rev (visited U (Sets U (new_store True) ws))))"
      by auto
    from st have st': "list_all (stable U) (map fst ws)" by (simp only: os)
    from st k(1) have n: "fuzz U (fuzz U k) = fuzz U k" by (auto simp: list_all_iff stable_def)
    have k': "k \<in> set (map fst ws)" "cache (Sets U (new_store True) ws) k \<noteq> None"
      "cache (Sets U (new_store True) ws) (fuzz U k) = None"
      using k unfolding os ca by blast+
    from form_revived [OF st' k'] g
    have "map_sum id (\<lambda>s1. Get U s1 (fuzz U k)) (Open U filename (Dump U s) [fuzzy s]) \<noteq>
        Inr (Get U s (fuzz U k))"
      by (simp add: o)
    moreover from k(3) f have "Get U s (fuzz U k) = ([], False)"
      by (simp add: Get_def get_def lookup_def n)
    ultimately show ?thesis by simp
  qed
  have 5: "list_all (\<lambda>(name, link). link \<noteq> []) ws \<or> forms_apart U (map fst ws) \<longrightarrow>
      live_forms U (Sets U (new_store True) ws)"
    using live_forms_no_tombstone [of ws U] live_forms_apart [of U ws] by blast
  from 1 2 3 4 5 Dump_eq [of U s] show ?thesis by blast
qed

theorem Dump_then_reopen_witness:
  "reachable unmapped (Sets unmapped (new_store True) [(''Go-Links'', ''x''), (''golinks'', ''y'')]) \<and>
   list_all (\<lambda>(name, link). clean name link)
     (visited unmapped (Sets unmapped (new_store True) [(''Go-Links'', ''x''), (''golinks'', ''y'')])) \<and>
   fuzzy (Sets unmapped (new_store True) [(''Go-Links'', ''x''), (''golinks'', ''y'')]) \<and>
   list_all (stable unmapped) (order (Sets unmapped (new_store True) [(''Go-Links'', ''x''), (''golinks'', ''y'')])) \<and>
   stable unmapped ''GOLINKS'' \<and>
   list_all (\<lambda>(name, link). link \<noteq> []) [(''Go-Links'', ''x''), (''golinks'', ''y'')] \<and>
   live_forms unmapped (Sets unmapped (new_store True) [(''Go-Links'', ''x''), (''golinks'', ''y'')]) \<and>
   Dump unmapped (Sets unmapped (new_store True) [(''Go-Links'', ''x''), (''golinks'', ''y'')]) =
     concat (rev (map (\<lambda>(name, link). record_line name link)
       (visited unmapped (Sets unmapped (new_store True) [(''Go-Links'', ''x''), (''golinks'', ''y'')])))) \<and>
   length (scan (Dump unmapped (Sets unmapped (new_store True) [(''Go-Links'', ''x''), (''golinks'', ''y'')]))) =
     card {name \<in> set (order (Sets unmapped (new_store True) [(''Go-Links'', ''x''), (''golinks'', ''y'')])).
           snd (Get unmapped (Sets unmapped (new_store True) [(''Go-Links'', ''x''), (''golinks'', ''y'')]) name)} \<and>
   map_sum id (\<lambda>s1. Get unmapped s1 ''GOLINKS'')
     (Open unmapped ''dump'' (Dump unmapped (Sets unmapped (new_store True) [(''Go-Links'', ''x''), (''golinks'', ''y'')]))
        [fuzzy (Sets unmapped (new_store True) [(''Go-Links'', ''x''), (''golinks'', ''y'')])]) =
     Inr (Get unmapped (Sets unmapped (new_store True) [(''Go-Links'', ''x''), (''golinks'', ''y'')]) ''GOLINKS'') \<and>
   reachable unmapped (Sets unmapped (new_store False) [(''a'', ''x''), (''b'', ''y''), (''a'', [])]) \<and>
   list_all (\<lambda>(name, link). clean name link)
     (visited unmapped (Sets unmapped (new_store False) [(''a'', ''x''), (''b'', ''y''), (''a'', [])])) \<and>
   \<not> fuzzy (Sets unmapped (new_store False) [(''a'', ''x''), (''b'', ''y''), (''a'', [])]) \<and>
   map_sum id cache
     (Open unmapped ''dump'' (Dump unmapped (Sets unmapped (new_store False) [(''a'', ''x''), (''b'', ''y''), (''a'', [])]))
        [fuzzy (Sets unmapped (new_store False) [(''a'', ''x''), (''b'', ''y''), (''a'', [])])]) =
     Inr (cache (Sets unmapped (new_store False) [(''a'', ''x''), (''b'', ''y''), (''a'', [])])) \<and>
   reachable unmapped (Sets unmapped (new_store True) [(''a-b'', ''x''), (''ab'', [])]) \<and>
   list_all (\<lambda>(name, link). clean name link)
     (visited unmapped (Sets unmapped (new_store True) [(''a-b'', ''x''), (''ab'', [])])) \<and>
   fuzzy (Sets unmapped (new_store True) [(''a-b'', ''x''), (''ab'', [])]) \<and>
   list_all (stable unmapped) (order (Sets unmapped (new_store True) [(''a-b'', ''x''), (''ab'', [])])) \<and>
   ''a-b'' \<in> set (order (Sets unmapped (new_store True) [(''a-b'', ''x''), (''ab'', [])])) \<and>
   cache (Sets unmapped (new_store True) [(''a-b'', ''x''), (''ab'', [])]) ''a-b'' \<noteq> None \<and>
   cache (Sets unmapped (new_store True) [(''a-b'', ''x''), (''ab'', [])]) (fuzz unmapped ''a-b'') = None \<and>
   map_sum id (\<lambda>s1. Get unmapped s1 (fuzz unmapped ''a-b''))
     (Open unmapped ''dump'' (Dump unmapped (Sets unmapped (new_store True) [(''a-b'', ''x''), (''ab'', [])]))
        [fuzzy (Sets unmapped (new_store True) [(''a-b'', ''x''), (''ab'', [])])]) \<noteq>
     Inr (Get unmapped (Sets unmapped (new_store True) [(''a-b'', ''x''), (''ab'', [])]) (fuzz unmapped ''a-b''))"
proof -
  let ?g = "Sets unmapped (new_store True) [(''Go-Links'', ''x''), (''golinks'', ''y'')]"
  let ?p = "Sets unmapped (new_store False) [(''a'', ''x''), (''b'', ''y''), (''a'', [])]"
  let ?d = "Sets unmapped (new_store True) [(''a-b'', ''x''), (''ab'', [])]"
  have rg: "reachable unmapped ?g" and rp: "reachable unmapped ?p" and rd: "reachable unmapped ?d"
    by (rule reachable_Sets)+
  have "visited unmapped ?g = [(''golinks'', ''y''), (''Go-Links'', ''x'')]"
    by (simp add: visited_eq Set_Ok get_def lookup_def cache_set' fuzz_examples)
  then have cg: "list_all (\<lambda>(name, link). clean name link) (visited unmapped ?g)"
    by (simp add: clean_def newline_def cr_def MaxScanTokenSize_def)
  have "visited unmapped ?p = [(''b'', ''y'')]"
    by (simp add: visited_eq Set_Ok get_def lookup_def cache_set')
  then have cp: "list_all (\<lambda>(name, link). clean name link) (visited unmapped ?p)"
    by (simp add: clean_def newline_def cr_def MaxScanTokenSize_def)
  have "visited unmapped ?d = [(''a-b'', ''x'')]"
    by (simp add: visited_eq Set_Ok get_def lookup_def cache_set' fuzz_examples)
  then have cd: "list_all (\<lambda>(name, link). clean name link) (visited unmapped ?d)"
    by (simp add: clean_def newline_def cr_def MaxScanTokenSize_def)
  have fg: "fuzzy ?g" and fp: "\<not> fuzzy ?p" and fd: "fuzzy ?d" by (simp_all del: Sets.simps)
  have sg: "list_all (stable unmapped) (order ?g)" and sd: "list_all (stable unmapped) (order ?d)"
    by (simp_all add: list_all_iff stable_unmapped)
  have sn: "stable unmapped ''GOLINKS''" by (rule stable_unmapped)
  have nt: "list_all (\<lambda>(name, link). link \<noteq> []) [(''Go-Links'', ''x''), (''golinks'', ''y'')]"
    by simp
  have kd: "''a-b'' \<in> set (order ?d)" "cache ?d ''a-b'' \<noteq> None" "cache ?d (fuzz unmapped ''a-b'') = None"
    by (simp_all add: Set_Ok cache_set' fuzz_examples)
  note tg = Dump_then_reopen [where U = unmapped and s = ?g and filename = "''dump''"
      and name = "''GOLINKS''" and ws = "[(''Go-Links'', ''x''), (''golinks'', ''y'')]"]
  from tg nt have lg: "live_forms unmapped ?g" by blast
  note tp = Dump_then_reopen [where U = unmapped and s = ?p and filename = "''dump''"]
  note td = Dump_then_reopen [where U = unmapped and s = ?d and filename = "''dump''"
      and k = "''a-b''"]
  from tg have 1: "Dump unmapped ?g =
     concat (rev (map (\<lambda>(name, link). record_line name link) (visited unmapped ?g)))"
    by blast
  from tg rg cg have 2: "length (scan (Dump unmapped ?g)) =
     card {name \<in> set (order ?g). snd (Get unmapped ?g name)}"
    by blast
  from tg rg cg fg sg sn lg have 3: "map_sum id (\<lambda>s1. Get unmapped s1 ''GOLINKS'')
     (Open unmapped ''dump'' (Dump unmapped ?g) [fuzzy ?g]) = Inr (Get unmapped ?g ''GOLINKS'')"
    by blast
  from tp rp cp fp have 4: "map_sum id cache
     (Open unmapped ''dump'' (Dump unmapped ?p) [fuzzy ?p]) = Inr (cache ?p)"
    by blast
  from td rd cd fd sd kd have 5: "map_sum id (\<lambda>s1. Get unmapped s1 (fuzz unmapped ''a-b''))
     (Open unmapped ''dump'' (Dump unmapped ?d) [fuzzy ?d]) \<noteq>
     Inr (Get unmapped ?d (fuzz unmapped ''a-b''))"
    by blast
  from rg cg fg sg sn nt lg 1 2 3 rp cp fp 4 rd cd fd sd kd 5 show ?thesis by blast
qed

end
